theory Spec2Isabelle
  imports Main "HOL-Library.Word"
begin

section \<open>The v2 frame reader (server/v2/reader.go)\<close>

subsection \<open>Bytes, errors and byte streams\<close>

type_synonym byte = "8 word"

text \<open>
  The error values: \<open>io.EOF\<close>, \<open>io.ErrUnexpectedEOF\<close>, the reader's
  \<open>ErrProtocolError\<close>, the server's \<open>ErrNoVersionEnabled\<close>, and every other error
  (transport, deadline, zlib, decoder, option) under its message.
\<close>

datatype error = EOF | ErrUnexpectedEOF | ErrProtocolError | ErrNoVersionEnabled | Other string

text \<open>
  An \<open>io.Reader\<close> is modelled by what it still has to deliver: the bytes that will
  arrive, and the error every read returns once they are used up (\<open>EOF\<close> for a
  stream that was closed cleanly, a timeout or a zlib error otherwise).
\<close>

type_synonym stream = "byte list \<times> error"

text \<open>
  \<open>readFull\<close> is \<open>io.ReadFull\<close>: all \<open>n\<close> bytes or an error; \<open>EOF\<close> only
  if no byte was read, \<open>ErrUnexpectedEOF\<close> if the stream ended after some; a request
  for no bytes reads nothing.
\<close>

definition readFull :: "stream \<Rightarrow> nat \<Rightarrow> error + (byte list \<times> stream)" where
  "readFull inp n =
     (case inp of (bs, t) \<Rightarrow>
        if n \<le> length bs then Inr (take n bs, (drop n bs, t))
        else if bs = [] then Inl t
        else if t = EOF then Inl ErrUnexpectedEOF
        else Inl t)"

text \<open>\<open>binary.BigEndian.Uint32\<close> on the first four bytes of a slice.\<close>

definition be32 :: "byte list \<Rightarrow> nat" where
  "be32 b = foldl (\<lambda>acc x. acc * 256 + unat x) 0 (take 4 b)"

text \<open>\<open>binary.BigEndian.PutUint32\<close> of \<open>uint32(n)\<close>: four bytes, high byte first.\<close>

definition enc32 :: "nat \<Rightarrow> byte list" where
  "enc32 n = [of_nat (n div 16777216), of_nat (n div 65536), of_nat (n div 256), of_nat n]"

text \<open>
  Modelled from the spec: the constants of package \<open>protocol/v2\<close>, which is not among
  the sources. The version byte is \<open>'2'\<close>, the frame types \<open>'W'\<close>, \<open>'J'\<close>,
  \<open>'C'\<close> and \<open>'A'\<close>.
\<close>

definition CodeVersion :: byte where
  "CodeVersion = 0x32"

definition CodeWindowSize :: byte where
  "CodeWindowSize = 0x57"

definition CodeJSONDataFrame :: byte where
  "CodeJSONDataFrame = 0x4A"

definition CodeCompressed :: byte where
  "CodeCompressed = 0x43"

definition CodeACK :: byte where
  "CodeACK = 0x41"

subsection \<open>The zlib library and the limit reader\<close>

text \<open>
  \<open>Read\<close> of an \<open>io.Reader\<close> with a buffer of \<open>k\<close> bytes, on a stream: the bytes
  read, as many as are asked for while the stream has them, and the stream after them;
  or no byte and the stream's error once it is used up. (A reader may return fewer bytes
  than it is asked for; the only caller, the loop of \<open>consumeFinal\<close>, reads again
  until an error, so this changes the number of its turns only.)
\<close>

definition streamRead :: "stream \<Rightarrow> nat \<Rightarrow> (byte list \<times> error option) \<times> stream" where
  "streamRead inp k =
     (case inp of (bs, t) \<Rightarrow>
        if bs = [] \<and> 0 < k then (([], Some t), inp)
        else ((take k bs, None), (drop k bs, t)))"

text \<open>
  \<open>io.LimitedReader\<close>, which \<open>io.LimitReader\<close> returns: the reader \<open>R\<close> it reads
  from and the number \<open>N\<close> of bytes it may still read. The limit reader holds the
  input itself, not a copy: what is read through it is read from the input.
\<close>

record LimitedReader =
  limR :: stream
  limN :: nat

definition LimitReader :: "stream \<Rightarrow> nat \<Rightarrow> LimitedReader" where
  "LimitReader inp n = \<lparr>limR = inp, limN = n\<rparr>"

text \<open>
  \<open>Read\<close> of the limit reader with a buffer of \<open>k\<close> bytes: \<open>EOF\<close> when \<open>N\<close> is
  used up, else a read of \<open>R\<close> with the buffer cut to \<open>N\<close> bytes, and \<open>N\<close> goes
  down by the bytes read.
\<close>

definition limitRead :: "LimitedReader \<Rightarrow> nat \<Rightarrow> (byte list \<times> error option) \<times> LimitedReader" where
  "limitRead l k =
     (if limN l = 0 then (([], Some EOF), l)
      else
        (case streamRead (limR l) (min k (limN l)) of
           ((bs, err), inp') \<Rightarrow> ((bs, err), \<lparr>limR = inp', limN = limN l - length bs\<rparr>)))"

text \<open>
  The limit reader as a stream, which is how a reader on top of it sees it: the next
  \<open>N\<close> bytes of \<open>R\<close> and then \<open>EOF\<close>, or all of \<open>R\<close> and its error when \<open>R\<close>
  ends sooner.
\<close>

definition limitView :: "LimitedReader \<Rightarrow> stream" where
  "limitView l =
     (take (limN l) (fst (limR l)),
      if limN l \<le> length (fst (limR l)) then EOF else snd (limR l))"

text \<open>
  The zlib package is outside the repository, so it is a parameter of the model.
  \<open>NewReader zl src\<close> is \<open>zlib.NewReader\<close> on the source \<open>src\<close>: an error (a bad
  header), or the decompressed stream the new reader will deliver, with the error it
  ends in. \<open>CloseReader zl src rest\<close> is what the reader's \<open>Close\<close> returns for the
  reader on \<open>src\<close> when \<open>rest\<close> of its output has not been read. The reader reads
  its source as it needs it, through a buffer of its own: \<open>pulled zl src rest\<close> is the
  number of bytes it has read from \<open>src\<close> by the time \<open>rest\<close> of its output has not
  been read; nothing is assumed about this number.
\<close>

record zlib =
  NewReader :: "stream \<Rightarrow> error + stream"
  CloseReader :: "stream \<Rightarrow> stream \<Rightarrow> error option"
  pulled :: "stream \<Rightarrow> stream \<Rightarrow> nat"

text \<open>
  The limit reader after a reader on top of it has read \<open>k\<close> bytes from it (all it
  delivers, if these are fewer).
\<close>

definition limitSkip :: "LimitedReader \<Rightarrow> nat \<Rightarrow> LimitedReader" where
  "limitSkip l k =
     (let m = min k (length (fst (limitView l)))
      in \<lparr>limR = (drop m (fst (limR l)), snd (limR l)), limN = limN l - m\<rparr>)"

text \<open>
  The loop that ends \<open>readCompressed\<close>: it reads the limit reader with a buffer of 16
  bytes until a read returns an error; \<open>EOF\<close> ends the loop, any other error is
  returned. The result is the error, if any, and the limit reader as the loop leaves it.
\<close>

function consumeFinal :: "LimitedReader \<Rightarrow> error option \<times> LimitedReader" where
  "consumeFinal limit =
     (case limitRead limit 16 of
        ((tmp, Some err), limit') \<Rightarrow> (if err \<noteq> EOF then Some err else None, limit')
      | ((tmp, None), limit') \<Rightarrow> consumeFinal limit')"
  by pat_completeness auto
termination
proof (relation "measure (\<lambda>l. length (fst (limR l)))")
  show "wf (measure (\<lambda>l. length (fst (limR l))))"
    by simp
next
  fix limit :: LimitedReader and x1 limit' tmp err
  assume "(x1, limit') = limitRead limit 16" and "(tmp, err) = x1" and "err = None"
  then show "(limit', limit) \<in> measure (\<lambda>l. length (fst (limR l)))"
    by (cases "limR limit")
       (auto simp: limitRead_def streamRead_def min_def split: if_splits)
qed

subsection \<open>The reader\<close>

text \<open>
  Modelled from the spec: the Batch of package \<open>lj\<close> (not among the sources), as far
  as the reader builds it: the events and the source metadata.
\<close>

record 'e Batch =
  Events :: "'e list"
  RemoteAddr :: string
  TLS :: "string option"

definition NewBatchWithSourceMetadata :: "'e list \<Rightarrow> string \<Rightarrow> string option \<Rightarrow> 'e Batch" where
  "NewBatchWithSourceMetadata evs addr tls = \<lparr>Events = evs, RemoteAddr = addr, TLS = tls\<rparr>"

text \<open>
  The \<open>reader\<close> struct. \<open>deadline\<close> is what \<open>conn.SetReadDeadline\<close> returns
  when the window's deadline is armed; \<open>decoder\<close> is the injected JSON decoder, a
  function of the payload; \<open>buf\<close> is \<open>len(r.buf)\<close>, the scratch buffer's length
  (its content is overwritten by every payload). The buffered input \<open>r.in\<close> over
  \<open>r.conn\<close> is an object of its own: the functions take its state as a \<open>stream\<close>
  and return it as the reads have left it.
\<close>

record 'e reader =
  deadline :: "error option"
  decoder :: "byte list \<Rightarrow> error + 'e"
  remoteAddr :: string
  tlsState :: "string option"
  buf :: nat

definition readJSONEvent :: "'e reader \<Rightarrow> stream \<Rightarrow> error + ('e \<times> stream \<times> 'e reader)" where
  "readJSONEvent r inp0 =
     (case readFull inp0 8 of
        Inl e \<Rightarrow> Inl e
      | Inr (hdr, inp1) \<Rightarrow>
          let payloadSz = be32 (drop 4 hdr);
              r1 = (if payloadSz > buf r then r\<lparr>buf := payloadSz\<rparr> else r)
          in (case readFull inp1 payloadSz of
                Inl e \<Rightarrow> Inl e
              | Inr (b, inp2) \<Rightarrow>
                  (case decoder r1 b of
                     Inl e \<Rightarrow> Inl e
                   | Inr event \<Rightarrow> Inr (event, inp2, r1))))"

text \<open>
  \<open>readEvents\<close> and \<open>readCompressed\<close> call each other, and a compressed frame may
  decompress to a stream that holds a compressed frame again, to any depth. The first
  argument is fuel: one unit per loop iteration; \<open>None\<close> is "not returned yet".
  \<open>cap\<close> is \<open>cap(events)\<close>, the window size: \<open>append\<close> below the capacity keeps it.
\<close>

fun readEvents ::
    "nat \<Rightarrow> zlib \<Rightarrow> 'e reader \<Rightarrow> stream \<Rightarrow> nat \<Rightarrow> 'e list
      \<Rightarrow> (error + ('e list \<times> stream \<times> 'e reader)) option"
  and readCompressed ::
    "nat \<Rightarrow> zlib \<Rightarrow> 'e reader \<Rightarrow> stream \<Rightarrow> nat \<Rightarrow> 'e list
      \<Rightarrow> (error + ('e list \<times> stream \<times> 'e reader)) option"
where
  "readEvents 0 zl r inp0 cap events = None"
| "readEvents (Suc fuel) zl r inp0 cap events =
     (if length events < cap then
        (case readFull inp0 2 of
           Inl e \<Rightarrow> Some (Inl e)
         | Inr (hdr, inp1) \<Rightarrow>
             if hdr ! 0 \<noteq> CodeVersion then Some (Inl ErrProtocolError)
             else if hdr ! 1 = CodeJSONDataFrame then
               (case readJSONEvent r inp1 of
                  Inl e \<Rightarrow> Some (Inl e)
                | Inr (event, inp2, r2) \<Rightarrow>
                    readEvents fuel zl r2 inp2 cap (events @ [event]))
             else if hdr ! 1 = CodeCompressed then
               (case readCompressed fuel zl r inp1 cap events of
                  None \<Rightarrow> None
                | Some (Inl e) \<Rightarrow> Some (Inl e)
                | Some (Inr (readEvents', inp2, r2)) \<Rightarrow>
                    readEvents fuel zl r2 inp2 cap readEvents')
             else Some (Inl ErrProtocolError))
      else Some (Inr (events, inp0, r)))"
| "readCompressed fuel zl r inp0 cap events =
     (case readFull inp0 4 of
        Inl e \<Rightarrow> Some (Inl e)
      | Inr (hdr, inp1) \<Rightarrow>
          let payloadSz = be32 hdr;
              limit = LimitReader inp1 payloadSz
          in (case NewReader zl (limitView limit) of
                Inl e \<Rightarrow> Some (Inl e)
              | Inr z \<Rightarrow>
                  (case readEvents fuel zl r z cap events of
                     None \<Rightarrow> None
                   | Some (Inl e) \<Rightarrow> Some (Inl e)
                   | Some (Inr (events', z', r')) \<Rightarrow>
                       (case CloseReader zl (limitView limit) z' of
                          Some e \<Rightarrow> Some (Inl e)
                        | None \<Rightarrow>
                            (case consumeFinal
                                    (limitSkip limit (pulled zl (limitView limit) z')) of
                               (Some e, limit') \<Rightarrow> Some (Inl e)
                             | (None, limit') \<Rightarrow> Some (Inr (events', limR limit', r')))))))"

text \<open>
  \<open>ReadBatch\<close> on the input \<open>inp0\<close>: \<open>Inr (None, inp1, r)\<close> is the return
  \<open>nil, nil\<close> of an empty window. The error of the first \<open>SetReadDeadline\<close> is
  dropped by the source.
\<close>

definition ReadBatch ::
    "nat \<Rightarrow> zlib \<Rightarrow> 'e reader \<Rightarrow> stream
      \<Rightarrow> (error + ('e Batch option \<times> stream \<times> 'e reader)) option" where
  "ReadBatch fuel zl r inp0 =
     (case readFull inp0 6 of
        Inl e \<Rightarrow> Some (Inl e)
      | Inr (win, inp1) \<Rightarrow>
          if win ! 0 \<noteq> CodeVersion \<and> win ! 1 \<noteq> CodeWindowSize then Some (Inl ErrProtocolError)
          else
            let count = be32 (drop 2 win)
            in if count = 0 then Some (Inr (None, inp1, r))
               else
                 (case deadline r of
                    Some e \<Rightarrow> Some (Inl e)
                  | None \<Rightarrow>
                      (case readEvents fuel zl r inp1 count [] of
                         None \<Rightarrow> None
                       | Some (Inl e) \<Rightarrow> Some (Inl e)
                       | Some (Inr (events, inp2, r2)) \<Rightarrow>
                           Some (Inr (Some (NewBatchWithSourceMetadata events
                                             (remoteAddr r) (tlsState r)),
                                      inp2, r2)))))"

subsection \<open>The wire format, for stating the theorems\<close>

text \<open>
  The frames as section 4.1 of the specification lays them out: a window header, a JSON
  data frame with its sequence number and payload, a compressed frame around a payload.
\<close>

definition windowHeader :: "nat \<Rightarrow> byte list" where
  "windowHeader n = [CodeVersion, CodeWindowSize] @ enc32 n"

definition jsonFrame :: "nat \<times> byte list \<Rightarrow> byte list" where
  "jsonFrame f = [CodeVersion, CodeJSONDataFrame] @ enc32 (fst f) @ enc32 (length (snd f)) @ snd f"

definition compressedFrame :: "byte list \<Rightarrow> byte list" where
  "compressedFrame z = [CodeVersion, CodeCompressed] @ enc32 (length z) @ z"

text \<open>The scratch buffer after the payloads \<open>ps\<close> have been read into it.\<close>

definition grown :: "'e reader \<Rightarrow> byte list list \<Rightarrow> 'e reader" where
  "grown r ps = r\<lparr>buf := foldl max (buf r) (map length ps)\<rparr>"

text \<open>
  \<open>inflates zl z s\<close>: the library decompresses the payload \<open>z\<close> to exactly \<open>s\<close>, and
  closing its reader returns no error wherever in \<open>s\<close> the reading stopped.
\<close>

definition inflates :: "zlib \<Rightarrow> byte list \<Rightarrow> byte list \<Rightarrow> bool" where
  "inflates zl z s =
     (NewReader zl (z, EOF) = Inr (s, EOF)
      \<and> list_all (\<lambda>k. CloseReader zl (z, EOF) (drop k s, EOF) = None) [0 ..< Suc (length s)])"

text \<open>
  The events of a window as they lie on the wire: JSON frames only, or JSON frames and
  then one compressed frame around the payload \<open>z\<close>, whose decompressed stream holds
  the rest of the window, laid out in the same way, and the stream \<open>surplus\<close> after it
  (bytes and the error the decompressed stream ends in). No other layout is read: the
  loop reads a compressed frame only while events are missing, and the reading inside
  it returns only when none is missing any more.
\<close>

datatype layout =
  Plain "(nat \<times> byte list) list"
| Packed "(nat \<times> byte list) list" "byte list" layout stream

text \<open>The bytes of a layout in the stream that carries it, and its payloads in wire order.\<close>

fun bytesOf :: "layout \<Rightarrow> byte list" where
  "bytesOf (Plain fs) = concat (map jsonFrame fs)"
| "bytesOf (Packed fs z inner surplus) = concat (map jsonFrame fs) @ compressedFrame z"

fun payloads :: "layout \<Rightarrow> byte list list" where
  "payloads (Plain fs) = map snd fs"
| "payloads (Packed fs z inner surplus) = map snd fs @ payloads inner"

text \<open>
  The turns of the loops of \<open>readEvents\<close> that reading a layout takes: one for each
  JSON frame and each compressed frame, and the turn that ends each loop.
\<close>

fun turns :: "layout \<Rightarrow> nat" where
  "turns (Plain fs) = length fs + 1"
| "turns (Packed fs z inner surplus) = length fs + 1 + turns inner"

text \<open>
  \<open>wellPacked zl w\<close>: every length fits its four bytes; every compressed frame holds
  an event at least; the library decompresses its payload to the inner layout followed
  by the surplus, and closing its reader with the surplus unread returns no error.
\<close>

fun wellPacked :: "zlib \<Rightarrow> layout \<Rightarrow> bool" where
  "wellPacked zl (Plain fs) = list_all (\<lambda>f. length (snd f) < 4294967296) fs"
| "wellPacked zl (Packed fs z inner surplus) =
     (list_all (\<lambda>f. length (snd f) < 4294967296) fs
      \<and> length z < 4294967296
      \<and> payloads inner \<noteq> []
      \<and> NewReader zl (z, EOF) = Inr (bytesOf inner @ fst surplus, snd surplus)
      \<and> CloseReader zl (z, EOF) surplus = None
      \<and> wellPacked zl inner)"

text \<open>\<open>tailOf s' s\<close>: the stream \<open>s'\<close> is \<open>s\<close> after some bytes were read.\<close>

definition tailOf :: "stream \<Rightarrow> stream \<Rightarrow> bool" where
  "tailOf s' s = (\<exists>k. s' = (drop k (fst s), snd s))"

text \<open>What the caller of \<open>ReadBatch\<close> gets: the error, or the Batch (none for an empty window).\<close>

definition batchOf ::
    "(error + ('e Batch option \<times> stream \<times> 'e reader)) option
      \<Rightarrow> (error + 'e Batch option) option" where
  "batchOf res = map_option (map_sum id fst) res"

text \<open>
  A codec to run the model on: it stores the data as it is and ends its stream at the
  first byte \<open>0xFF\<close>; an empty source has no header. Closing its reader returns no
  error. Its reader has no buffer: it has read from its source the bytes it has
  delivered, and nothing behind them.
\<close>

definition storedZlib :: zlib where
  "storedZlib =
     \<lparr>NewReader = (\<lambda>src. if fst src = [] then Inl (Other ''zlib: invalid header'')
                         else Inr (takeWhile (\<lambda>b. b \<noteq> 0xFF) (fst src), EOF)),
      CloseReader = (\<lambda>src rest. None),
      pulled = (\<lambda>src rest. length (takeWhile (\<lambda>b. b \<noteq> 0xFF) (fst src)) - length (fst rest))\<rparr>"

text \<open>
  A reader to run the model on: its decoder returns the payload itself, and fails on
  the one-byte payload \<open>X\<close>.
\<close>

definition sampleReader :: "byte list reader" where
  "sampleReader =
     \<lparr>deadline = None,
      decoder = (\<lambda>p. if p = [0x58] then Inl (Other ''invalid character'') else Inr p),
      remoteAddr = ''192.0.2.1:5044'', tlsState = None, buf = 0\<rparr>"

section \<open>The connection handler (server/internal/handler.go)\<close>

text \<open>
  A handler runs two tasks: \<open>handle\<close>, which reads Batches and hands each to the ACK
  task and then to the consumer, and \<open>ackLoop\<close>, which waits for each Batch's
  acknowledgement and writes the ACK. They meet at the unbuffered channel \<open>h.ch\<close>,
  the stop signal \<open>h.signal\<close> and the Batch's own signal. The model is a transition
  system: the state holds both tasks' positions, and every event is one atomic step of
  one task, or of the environment (the consumer acknowledges a Batch, somebody calls
  \<open>Stop\<close>). Where a \<open>select\<close> has several cases ready, each of them is an event
  that may be taken, as Go chooses among the ready cases.
\<close>

subsection \<open>State\<close>

text \<open>
  Where the read task stands in \<open>handle\<close>: before \<open>ReadBatch\<close>; at the select that
  sends Batch \<open>b\<close> to the ACK task; in \<open>cb.OnEvents(b)\<close>; returning, with the deferred
  \<open>h.Stop()\<close> to run; with the deferred \<open>close(h.ch)\<close> to run; done. A Batch is
  named by its index in \<open>batches\<close>, the Batches in the order they were read.
\<close>

datatype readPC = HRead | HSelect nat | HOnEvents nat | HStop | HCloseCh | HDone

text \<open>
  Where the ACK task stands in \<open>ackLoop\<close>: at the loop's select; inside
  \<open>waitACK\<close> for Batch \<open>b\<close>; in the deferred loop that drains \<open>h.ch\<close>; returned.
\<close>

datatype ackPC = ASelect | AWait nat | ADrain | AReturned

text \<open>
  What the writer has put on the wire: \<open>AckFrame b n\<close> is the frame of \<open>ACK(n)\<close>
  written while waiting for Batch \<open>b\<close>, \<open>KeepaliveFrame b n\<close> that of
  \<open>Keepalive(n)\<close>. The Batch is a label of the model; the frame's bytes are
  \<open>frameBytes\<close>.
\<close>

datatype wframe = AckFrame nat nat | KeepaliveFrame nat nat

text \<open>
  The handler with its environment. \<open>acked\<close> lists the Batches whose signal is closed
  (\<open>Batch.ACK\<close> was called); \<open>signalClosed\<close>, \<open>chClosed\<close> and \<open>clientClosed\<close> say
  whether \<open>h.signal\<close>, \<open>h.ch\<close> and the transport are closed; \<open>stopGuard\<close> is the
  \<open>sync.Once\<close>, and \<open>stopping\<close> holds while its function has closed the signal and
  not yet the transport. \<open>signalCloses\<close> and \<open>clientCloses\<close> count the two closes.
\<close>

record 'e handler =
  keepalive :: int
  batches :: "'e Batch list"
  acked :: "nat list"
  signalClosed :: bool
  clientClosed :: bool
  chClosed :: bool
  stopGuard :: bool
  stopping :: bool
  signalCloses :: nat
  clientCloses :: nat
  readTask :: readPC
  ackTask :: ackPC
  wire :: "wframe list"

text \<open>
  The events. Of the read task: \<open>ReadBatch\<close> returns an error, no Batch or a Batch;
  its select takes the signal; its select sends the Batch (the ACK task receives it, in
  its loop or while draining); \<open>OnEvents\<close> returns; the deferred \<open>Stop\<close>; the deferred
  \<open>close(h.ch)\<close>. Of \<open>Stop\<close> called from outside (the server's shutdown), and of the
  second statement of the function under the guard, \<open>client.Close()\<close>. Of the ACK task:
  its loop's select takes the signal or finds the channel closed; the select of
  \<open>waitACK\<close> takes the signal, the Batch's acknowledgement or the timer, the latter two
  with what the write returns; the drain loop finds the channel closed. Of the consumer:
  \<open>Batch.ACK\<close>.
\<close>

datatype 'e event =
    ReadBatchRet "error + 'e Batch option"
  | HandleSelectSignal
  | Handoff
  | OnEventsRet "error option"
  | HandleStop
  | HandleCloseCh
  | ExternalStop
  | StopCloseClient
  | AckSelectSignal
  | AckSelectClosed
  | WaitSignal
  | WaitAwait "error option"
  | WaitTick "error option"
  | DrainClosed
  | BatchACK nat

text \<open>The handler \<open>DefaultHandler\<close> builds, as \<open>Run\<close> starts its two tasks.\<close>

definition DefaultHandler :: "int \<Rightarrow> 'e handler" where
  "DefaultHandler ka =
     \<lparr>keepalive = ka, batches = [], acked = [], signalClosed = False, clientClosed = False,
      chClosed = False, stopGuard = False, stopping = False, signalCloses = 0,
      clientCloses = 0, readTask = HRead, ackTask = ASelect, wire = []\<rparr>"

subsection \<open>Stop and the writer\<close>

text \<open>
  \<open>Stop\<close> up to the first statement under the guard, \<open>close(h.signal)\<close>; a call that
  finds the guard taken does nothing. The second statement, \<open>h.client.Close()\<close>, is the
  event \<open>StopCloseClient\<close>.
\<close>

definition Stop :: "'e handler \<Rightarrow> 'e handler" where
  "Stop h =
     (if stopGuard h then h
      else h\<lparr>stopGuard := True, stopping := True, signalClosed := True,
             signalCloses := Suc (signalCloses h)\<rparr>)"

text \<open>
  The \<open>ACKWriter\<close> interface. \<open>res\<close> is what the call returns, \<open>None\<close> for \<open>nil\<close>:
  then the frame is on the wire, which a closed transport does not allow.
\<close>

definition writerACK :: "'e handler \<Rightarrow> nat \<Rightarrow> nat \<Rightarrow> error option \<Rightarrow> 'e handler option" where
  "writerACK h b n res =
     (case res of
        None \<Rightarrow> if clientClosed h then None else Some (h\<lparr>wire := wire h @ [AckFrame b n]\<rparr>)
      | Some err \<Rightarrow> Some h)"

definition writerKeepalive :: "'e handler \<Rightarrow> nat \<Rightarrow> nat \<Rightarrow> error option \<Rightarrow> 'e handler option" where
  "writerKeepalive h b n res =
     (case res of
        None \<Rightarrow> if clientClosed h then None else Some (h\<lparr>wire := wire h @ [KeepaliveFrame b n]\<rparr>)
      | Some err \<Rightarrow> Some h)"

text \<open>
  Modelled from the spec: the frames of the v2 writer, which is not among the sources. An
  ACK frame is the version byte, \<open>'A'\<close> and the count as four bytes, big-endian; a
  keep-alive frame has the same encoding.
\<close>

fun frameBytes :: "wframe \<Rightarrow> byte list" where
  "frameBytes (AckFrame b n) = [CodeVersion, CodeACK] @ enc32 n"
| "frameBytes (KeepaliveFrame b n) = [CodeVersion, CodeACK] @ enc32 n"

subsection \<open>The ACK task\<close>

text \<open>
  One turn of the select in \<open>waitACK\<close>: the function goes on waiting, or returns
  \<open>nil\<close> or an error. The timer's case exists only for a positive \<open>keepalive\<close>.
\<close>

datatype waitResult = Waiting | Returned "error option"

definition waitACK :: "'e handler \<Rightarrow> nat \<Rightarrow> 'e event \<Rightarrow> ('e handler \<times> waitResult) option" where
  "waitACK h batch ev =
     (let n = length (Events (batches h ! batch)) in
      case ev of
        WaitSignal \<Rightarrow> if signalClosed h then Some (h, Returned None) else None
      | WaitAwait res \<Rightarrow>
          if batch \<in> set (acked h) then
            (case writerACK h batch n res of
               None \<Rightarrow> None
             | Some h' \<Rightarrow> Some (h', Returned res))
          else None
      | WaitTick res \<Rightarrow>
          if 0 < keepalive h then
            (case writerKeepalive h batch 0 res of
               None \<Rightarrow> None
             | Some h' \<Rightarrow> Some (h', case res of None \<Rightarrow> Waiting | Some err \<Rightarrow> Returned (Some err)))
          else None
      | _ \<Rightarrow> None)"

text \<open>
  \<open>ackLoop\<close>: the select of the loop, \<open>waitACK\<close> for the Batch received, and the
  deferred drain. An error of \<open>waitACK\<close> ends the loop; \<open>nil\<close> goes round it.
\<close>

definition ackLoop :: "'e handler \<Rightarrow> 'e event \<Rightarrow> 'e handler option" where
  "ackLoop h ev =
     (case ackTask h of
        ASelect \<Rightarrow>
          (case ev of
             AckSelectSignal \<Rightarrow> if signalClosed h then Some (h\<lparr>ackTask := ADrain\<rparr>) else None
           | AckSelectClosed \<Rightarrow> if chClosed h then Some (h\<lparr>ackTask := ADrain\<rparr>) else None
           | _ \<Rightarrow> None)
      | AWait batch \<Rightarrow>
          (case waitACK h batch ev of
             None \<Rightarrow> None
           | Some (h', Waiting) \<Rightarrow> Some h'
           | Some (h', Returned None) \<Rightarrow> Some (h'\<lparr>ackTask := ASelect\<rparr>)
           | Some (h', Returned (Some err)) \<Rightarrow> Some (h'\<lparr>ackTask := ADrain\<rparr>))
      | ADrain \<Rightarrow>
          (case ev of
             DrainClosed \<Rightarrow> if chClosed h then Some (h\<lparr>ackTask := AReturned\<rparr>) else None
           | _ \<Rightarrow> None)
      | AReturned \<Rightarrow> None)"

subsection \<open>The read task\<close>

text \<open>
  \<open>handle\<close>. The send \<open>h.ch <- b\<close> needs the ACK task at a receive: at its loop's
  select, which then waits for \<open>b\<close>, or in the drain loop, which drops \<open>b\<close>. The
  deferred \<open>Stop\<close> returns when the function under the guard has ended, so the channel
  is closed only then.
\<close>

definition handle :: "'e handler \<Rightarrow> 'e event \<Rightarrow> 'e handler option" where
  "handle h ev =
     (case readTask h of
        HRead \<Rightarrow>
          (case ev of
             ReadBatchRet (Inl err) \<Rightarrow> Some (h\<lparr>readTask := HStop\<rparr>)
           | ReadBatchRet (Inr None) \<Rightarrow> Some h
           | ReadBatchRet (Inr (Some b)) \<Rightarrow>
               Some (h\<lparr>batches := batches h @ [b], readTask := HSelect (length (batches h))\<rparr>)
           | _ \<Rightarrow> None)
      | HSelect b \<Rightarrow>
          (case ev of
             HandleSelectSignal \<Rightarrow> if signalClosed h then Some (h\<lparr>readTask := HStop\<rparr>) else None
           | Handoff \<Rightarrow>
               (case ackTask h of
                  ASelect \<Rightarrow> Some (h\<lparr>readTask := HOnEvents b, ackTask := AWait b\<rparr>)
                | ADrain \<Rightarrow> Some (h\<lparr>readTask := HOnEvents b\<rparr>)
                | _ \<Rightarrow> None)
           | _ \<Rightarrow> None)
      | HOnEvents b \<Rightarrow>
          (case ev of
             OnEventsRet None \<Rightarrow> Some (h\<lparr>readTask := HRead\<rparr>)
           | OnEventsRet (Some err) \<Rightarrow> Some (h\<lparr>readTask := HStop\<rparr>)
           | _ \<Rightarrow> None)
      | HStop \<Rightarrow>
          (case ev of
             HandleStop \<Rightarrow> Some ((Stop h)\<lparr>readTask := HCloseCh\<rparr>)
           | _ \<Rightarrow> None)
      | HCloseCh \<Rightarrow>
          (case ev of
             HandleCloseCh \<Rightarrow>
               if stopping h then None else Some (h\<lparr>chClosed := True, readTask := HDone\<rparr>)
           | _ \<Rightarrow> None)
      | HDone \<Rightarrow> None)"

subsection \<open>Steps and runs\<close>

text \<open>
  One step of the system; \<open>None\<close> when the event cannot happen in the state. The
  consumer may acknowledge any Batch that exists and is not acknowledged yet.
\<close>

definition step :: "'e handler \<Rightarrow> 'e event \<Rightarrow> 'e handler option" where
  "step h ev =
     (case ev of
        ExternalStop \<Rightarrow> Some (Stop h)
      | StopCloseClient \<Rightarrow>
          if stopping h
          then Some (h\<lparr>stopping := False, clientClosed := True, clientCloses := Suc (clientCloses h)\<rparr>)
          else None
      | BatchACK b \<Rightarrow>
          if b < length (batches h) \<and> b \<notin> set (acked h) then Some (h\<lparr>acked := b # acked h\<rparr>)
          else None
      | ReadBatchRet res \<Rightarrow> handle h ev
      | HandleSelectSignal \<Rightarrow> handle h ev
      | Handoff \<Rightarrow> handle h ev
      | OnEventsRet res \<Rightarrow> handle h ev
      | HandleStop \<Rightarrow> handle h ev
      | HandleCloseCh \<Rightarrow> handle h ev
      | _ \<Rightarrow> ackLoop h ev)"

fun run :: "'e handler \<Rightarrow> 'e event list \<Rightarrow> 'e handler option" where
  "run h [] = Some h"
| "run h (ev # evs) = (case step h ev of None \<Rightarrow> None | Some h' \<Rightarrow> run h' evs)"

text \<open>The Batches that have an ACK frame on the wire, in the order of the frames.\<close>

definition ackedRefs :: "'e handler \<Rightarrow> nat list" where
  "ackedRefs h =
     concat (map (\<lambda>f. case f of AckFrame b n \<Rightarrow> [b] | KeepaliveFrame b n \<Rightarrow> []) (wire h))"

text \<open>
  The steps once more, as rules: one rule for each way an event changes the state.
  \<open>step_moves\<close> below shows that every step of \<open>step\<close> is one of them.
\<close>

inductive moves :: "'e handler \<Rightarrow> 'e event \<Rightarrow> 'e handler \<Rightarrow> bool" where
  ExternalStop: "moves h ExternalStop (Stop h)"
| StopCloseClient: "stopping h \<Longrightarrow>
    moves h StopCloseClient
      (h\<lparr>stopping := False, clientClosed := True, clientCloses := Suc (clientCloses h)\<rparr>)"
| BatchACK: "b < length (batches h) \<Longrightarrow> b \<notin> set (acked h) \<Longrightarrow>
    moves h (BatchACK b) (h\<lparr>acked := b # acked h\<rparr>)"
| ReadErr: "readTask h = HRead \<Longrightarrow> moves h (ReadBatchRet (Inl err)) (h\<lparr>readTask := HStop\<rparr>)"
| ReadEmpty: "readTask h = HRead \<Longrightarrow> moves h (ReadBatchRet (Inr None)) h"
| ReadBatch: "readTask h = HRead \<Longrightarrow>
    moves h (ReadBatchRet (Inr (Some b)))
      (h\<lparr>batches := batches h @ [b], readTask := HSelect (length (batches h))\<rparr>)"
| HandleSelectSignal: "readTask h = HSelect i \<Longrightarrow> signalClosed h \<Longrightarrow>
    moves h HandleSelectSignal (h\<lparr>readTask := HStop\<rparr>)"
| HandoffWait: "readTask h = HSelect i \<Longrightarrow> ackTask h = ASelect \<Longrightarrow>
    moves h Handoff (h\<lparr>readTask := HOnEvents i, ackTask := AWait i\<rparr>)"
| HandoffDrain: "readTask h = HSelect i \<Longrightarrow> ackTask h = ADrain \<Longrightarrow>
    moves h Handoff (h\<lparr>readTask := HOnEvents i\<rparr>)"
| OnEventsOk: "readTask h = HOnEvents i \<Longrightarrow> moves h (OnEventsRet None) (h\<lparr>readTask := HRead\<rparr>)"
| OnEventsErr: "readTask h = HOnEvents i \<Longrightarrow>
    moves h (OnEventsRet (Some err)) (h\<lparr>readTask := HStop\<rparr>)"
| HandleStop: "readTask h = HStop \<Longrightarrow> moves h HandleStop ((Stop h)\<lparr>readTask := HCloseCh\<rparr>)"
| HandleCloseCh: "readTask h = HCloseCh \<Longrightarrow> \<not> stopping h \<Longrightarrow>
    moves h HandleCloseCh (h\<lparr>chClosed := True, readTask := HDone\<rparr>)"
| AckSelectSignal: "ackTask h = ASelect \<Longrightarrow> signalClosed h \<Longrightarrow>
    moves h AckSelectSignal (h\<lparr>ackTask := ADrain\<rparr>)"
| AckSelectClosed: "ackTask h = ASelect \<Longrightarrow> chClosed h \<Longrightarrow>
    moves h AckSelectClosed (h\<lparr>ackTask := ADrain\<rparr>)"
| WaitSignal: "ackTask h = AWait b \<Longrightarrow> signalClosed h \<Longrightarrow>
    moves h WaitSignal (h\<lparr>ackTask := ASelect\<rparr>)"
| WaitAwaitOk: "ackTask h = AWait b \<Longrightarrow> b \<in> set (acked h) \<Longrightarrow> \<not> clientClosed h \<Longrightarrow>
    moves h (WaitAwait None)
      (h\<lparr>wire := wire h @ [AckFrame b (length (Events (batches h ! b)))], ackTask := ASelect\<rparr>)"
| WaitAwaitErr: "ackTask h = AWait b \<Longrightarrow> b \<in> set (acked h) \<Longrightarrow>
    moves h (WaitAwait (Some err)) (h\<lparr>ackTask := ADrain\<rparr>)"
| WaitTickOk: "ackTask h = AWait b \<Longrightarrow> 0 < keepalive h \<Longrightarrow> \<not> clientClosed h \<Longrightarrow>
    moves h (WaitTick None) (h\<lparr>wire := wire h @ [KeepaliveFrame b 0]\<rparr>)"
| WaitTickErr: "ackTask h = AWait b \<Longrightarrow> 0 < keepalive h \<Longrightarrow>
    moves h (WaitTick (Some err)) (h\<lparr>ackTask := ADrain\<rparr>)"
| DrainClosed: "ackTask h = ADrain \<Longrightarrow> chClosed h \<Longrightarrow>
    moves h DrainClosed (h\<lparr>ackTask := AReturned\<rparr>)"

subsection \<open>Invariants\<close>

text \<open>
  \<open>rlimOf\<close> is the number of Batches the read task has handed over or is past handing
  over; \<open>alimOf\<close> bounds the Batches that can have an ACK on the wire: those before
  the one the ACK task waits for.
\<close>

fun rlimOf :: "readPC \<Rightarrow> nat \<Rightarrow> nat" where
  "rlimOf (HSelect i) n = i"
| "rlimOf _ n = n"

fun readOK :: "readPC \<Rightarrow> nat \<Rightarrow> bool" where
  "readOK (HSelect i) n = (i < n)"
| "readOK _ n = True"

fun alimOf :: "ackPC \<Rightarrow> nat \<Rightarrow> nat" where
  "alimOf (AWait b) r = b"
| "alimOf _ r = r"

fun ackOK :: "ackPC \<Rightarrow> nat \<Rightarrow> bool" where
  "ackOK (AWait b) r = (b < r)"
| "ackOK _ r = True"

definition ordered :: "'e handler \<Rightarrow> bool" where
  "ordered h =
     (readOK (readTask h) (length (batches h))
      \<and> ackOK (ackTask h) (rlimOf (readTask h) (length (batches h)))
      \<and> list_all (\<lambda>r. r < alimOf (ackTask h) (rlimOf (readTask h) (length (batches h))))
            (ackedRefs h)
      \<and> sorted_wrt (<) (ackedRefs h))"

text \<open>
  A frame is right for the Batches \<open>bs\<close> and the acknowledged ones \<open>acks\<close>: an ACK
  frame counts the events of its Batch, which is acknowledged; a keep-alive counts 0.
\<close>

fun frameOK :: "'e Batch list \<Rightarrow> nat list \<Rightarrow> wframe \<Rightarrow> bool" where
  "frameOK bs acks (AckFrame b k) = (b < length bs \<and> k = length (Events (bs ! b)) \<and> b \<in> set acks)"
| "frameOK bs acks (KeepaliveFrame b k) = (k = 0)"

definition wellFramed :: "'e handler \<Rightarrow> bool" where
  "wellFramed h = list_all (frameOK (batches h) (acked h)) (wire h)"

text \<open>
  The same on the bytes: an ACK frame is \<open>'2'\<close>, \<open>'A'\<close> and the number of events of
  its Batch as four bytes, big-endian; a keep-alive frame is \<open>'2'\<close>, \<open>'A'\<close> and four
  zero bytes.
\<close>

fun carries :: "'e Batch list \<Rightarrow> wframe \<Rightarrow> bool" where
  "carries bs (AckFrame b n) =
     (b < length bs \<and> frameBytes (AckFrame b n) = [0x32, 0x41] @ enc32 (length (Events (bs ! b))))"
| "carries bs (KeepaliveFrame b n) = (frameBytes (KeepaliveFrame b n) = [0x32, 0x41, 0, 0, 0, 0])"

definition stoppedOnce :: "'e handler \<Rightarrow> bool" where
  "stoppedOnce h =
     (signalClosed h = stopGuard h
      \<and> signalCloses h = (if stopGuard h then 1 else 0)
      \<and> clientClosed h = (stopGuard h \<and> \<not> stopping h)
      \<and> clientCloses h = (if stopGuard h \<and> \<not> stopping h then 1 else 0)
      \<and> (stopGuard h \<or> \<not> stopping h))"

subsection \<open>Runs to evaluate\<close>

definition batchOne :: "string Batch" where
  "batchOne = \<lparr>Events = [''a''], RemoteAddr = ''192.0.2.1:5044'', TLS = None\<rparr>"

definition batchTwo :: "string Batch" where
  "batchTwo = \<lparr>Events = [''b'', ''c''], RemoteAddr = ''192.0.2.1:5044'', TLS = None\<rparr>"

text \<open>
  Two Batches are read; the consumer acknowledges the second before the first, while
  the ACK task waits for the first and sends a keep-alive.
\<close>

definition crossedTrace :: "string event list" where
  "crossedTrace =
     [ReadBatchRet (Inr (Some batchOne)), Handoff, OnEventsRet None,
      ReadBatchRet (Inr (Some batchTwo)), BatchACK 1, WaitTick None, BatchACK 0,
      WaitAwait None, Handoff, OnEventsRet None, WaitAwait None]"

text \<open>
  A Batch is read, handed over and acknowledged; then \<open>Stop\<close> closes the signal (the
  transport is not closed yet).
\<close>

definition stopTrace :: "string event list" where
  "stopTrace =
     [ReadBatchRet (Inr (Some batchOne)), Handoff, OnEventsRet None, BatchACK 0, ExternalStop]"




section \<open>The multiplexing server (server/server.go, server/opts.go)\<close>

subsection \<open>Options\<close>

text \<open>
  The options \<open>NewServer\<close> reads: the two durations, the versions enabled and the sink
  channel (\<open>None\<close> is \<open>nil\<close>). The decoder, the TLS configuration and the logging
  switch are passed on to the sub-servers and decide nothing here.
\<close>

record options =
  optTimeout :: int
  optKeepalive :: int
  v1 :: bool
  v2 :: bool
  ch :: "nat option"

type_synonym Option = "options \<Rightarrow> error + options"

definition Keepalive :: "int \<Rightarrow> Option" where
  "Keepalive kl opt =
     (if kl < 0 then Inl (Other ''keepalive must not be negative'')
      else Inr (opt\<lparr>optKeepalive := kl\<rparr>))"

definition Timeout :: "int \<Rightarrow> Option" where
  "Timeout tmo opt =
     (if tmo < 0 then Inl (Other ''timeouts must not be negative'')
      else Inr (opt\<lparr>optTimeout := tmo\<rparr>))"

definition Channel :: "nat option \<Rightarrow> Option" where
  "Channel c opt = Inr (opt\<lparr>ch := c\<rparr>)"

definition V1 :: "bool \<Rightarrow> Option" where
  "V1 b opt = Inr (opt\<lparr>v1 := b\<rparr>)"

definition V2 :: "bool \<Rightarrow> Option" where
  "V2 b opt = Inr (opt\<lparr>v2 := b\<rparr>)"

fun applyAll :: "Option list \<Rightarrow> options \<Rightarrow> error + options" where
  "applyAll [] o1 = Inr o1"
| "applyAll (opt # opts) o1 =
     (case opt o1 of Inl err \<Rightarrow> Inl err | Inr o2 \<Rightarrow> applyAll opts o2)"

text \<open>The defaults: 30 and 3 seconds (in nanoseconds), both versions, no channel.\<close>

definition applyOptions :: "Option list \<Rightarrow> error + options" where
  "applyOptions opts =
     applyAll opts
       \<lparr>optTimeout = 30000000000, optKeepalive = 3000000000, v1 = True, v2 = True, ch = None\<rparr>"

subsection \<open>The server\<close>

text \<open>
  Closing a closed channel and reading a field through a nil pointer panic.
\<close>

datatype panic = CloseOfClosedChannel | NilPointerDereference

text \<open>
  \<open>muxServer\<close>: the version byte, the in-memory listener (the field \<open>l\<close>, a pointer:
  \<open>None\<close> is \<open>nil\<close>) and the sub-server. The sub-servers are those of packages
  \<open>server/v1\<close> and \<open>server/v2\<close>, whose constructors are not among the sources: they
  are values of a type \<open>'s\<close>.
\<close>

record ('l, 's) muxServer =
  mux :: byte
  lst :: "'l option"
  server :: 's

text \<open>
  The \<open>server\<close> struct: \<open>sinkClosed\<close> and \<open>doneClosed\<close> say whether \<open>s.ch\<close> and
  \<open>s.done\<close> are closed, \<open>muxs\<close> is the field \<open>mux\<close>. The wait group is never added
  to in the file, so \<open>s.wg.Wait()\<close> returns at once.
\<close>

record ('l, 's) server =
  sinkClosed :: bool
  ownCH :: bool
  doneClosed :: bool
  muxs :: "('l, 's) muxServer list"

text \<open>What \<open>NewServer\<close> returns: the only sub-server enabled, or the multiplexer.\<close>

datatype ('l, 's) Server = Single 's | Muxed "('l, 's) server"

text \<open>
  The loop of \<open>NewServer\<close> over the constructors, each given by what it returns: it
  stops at the first error, and fills \<open>mux\<close> and \<open>server\<close> of each entry. The field
  \<open>l\<close> is not set (the line that did is a comment in the source), so it is \<open>nil\<close>.
\<close>

fun makeMux :: "((error + 's) \<times> byte) list \<Rightarrow> error + ('l, 's) muxServer list" where
  "makeMux [] = Inr []"
| "makeMux ((mk, b) # servers) =
     (case mk of
        Inl err \<Rightarrow> Inl err
      | Inr s \<Rightarrow>
          (case makeMux servers of
             Inl err \<Rightarrow> Inl err
           | Inr ms \<Rightarrow> Inr (\<lparr>mux = b, lst = None, server = s\<rparr> # ms)))"

text \<open>
  \<open>NewServer\<close>; \<open>mk1\<close> and \<open>mk2\<close> are what \<open>v1.NewWithListener\<close> and
  \<open>v2.NewWithListener\<close> return.
\<close>

definition NewServer :: "(error + 's) \<Rightarrow> (error + 's) \<Rightarrow> Option list \<Rightarrow> error + ('l, 's) Server" where
  "NewServer mk1 mk2 opts =
     (case applyOptions opts of
        Inl err \<Rightarrow> Inl err
      | Inr cfg \<Rightarrow>
          let servers = (if v1 cfg then [(mk1, 0x31)] else []) @ (if v2 cfg then [(mk2, 0x32)] else [])
          in if length servers = 0 then Inl ErrNoVersionEnabled
             else if length servers = 1 then
               (case fst (servers ! 0) of Inl err \<Rightarrow> Inl err | Inr s \<Rightarrow> Inr (Single s))
             else
               (case makeMux servers of
                  Inl err \<Rightarrow> Inl err
                | Inr ms \<Rightarrow>
                    Inr (Muxed \<lparr>sinkClosed = False, ownCH = (ch cfg = None), doneClosed = False,
                                muxs = ms\<rparr>)))"

text \<open>
  The loop of \<open>Close\<close> over the sub-servers. \<open>subClose\<close> is the sub-server's
  \<open>Close\<close>, which may panic; the error it returns is dropped by the source.
\<close>

fun closeAll ::
    "('s \<Rightarrow> panic + 's) \<Rightarrow> ('l, 's) muxServer list \<Rightarrow> panic + ('l, 's) muxServer list" where
  "closeAll subClose [] = Inr []"
| "closeAll subClose (m # ms) =
     (case subClose (server m) of
        Inl p \<Rightarrow> Inl p
      | Inr s' \<Rightarrow>
          (case closeAll subClose ms of
             Inl p \<Rightarrow> Inl p
           | Inr ms' \<Rightarrow> Inr (m\<lparr>server := s'\<rparr> # ms')))"

text \<open>
  \<open>Close\<close>: \<open>close(s.done)\<close>, the sub-servers, the wait, and \<open>close(s.ch)\<close> for a
  channel the server owns. It returns \<open>nil\<close>: the result is the server after it, or
  the panic.
\<close>

definition Close :: "('s \<Rightarrow> panic + 's) \<Rightarrow> ('l, 's) server \<Rightarrow> panic + ('l, 's) server" where
  "Close subClose s =
     (if doneClosed s then Inl CloseOfClosedChannel
      else
        (case closeAll subClose (muxs s) of
           Inl p \<Rightarrow> Inl p
         | Inr ms \<Rightarrow>
             if ownCH s then
               (if sinkClosed s then Inl CloseOfClosedChannel
                else Inr (s\<lparr>doneClosed := True, muxs := ms, sinkClosed := True\<rparr>))
             else Inr (s\<lparr>doneClosed := True, muxs := ms\<rparr>)))"

subsection \<open>Handle\<close>

text \<open>
  A client connection: what the peer still sends, what was written to it, and whether it
  is closed.
\<close>

record client =
  incoming :: stream
  written :: "byte list"
  closed :: bool

text \<open>
  Modelled from the spec: the wrapper connection of \<open>newMuxConn\<close> (not among the
  sources), whose reads return the peeked byte first and the client's bytes after it.
\<close>

record muxConn =
  first :: "byte option"
  conn :: client

definition newMuxConn :: "byte \<Rightarrow> client \<Rightarrow> muxConn" where
  "newMuxConn b c = \<lparr>first = Some b, conn = c\<rparr>"

definition muxConnStream :: "muxConn \<Rightarrow> stream" where
  "muxConnStream mc =
     (case first mc of
        None \<Rightarrow> incoming (conn mc)
      | Some b \<Rightarrow> (b # fst (incoming (conn mc)), snd (incoming (conn mc))))"

text \<open>
  The loop of \<open>Handle\<close> over \<open>s.mux\<close> with the byte \<open>b\<close> read: the first entry
  of that byte gets the wrapper connection on its listener's channel, read through the
  pointer \<open>m.l\<close>; with no entry the client is closed.
\<close>

fun route ::
    "('l, 's) muxServer list \<Rightarrow> byte \<Rightarrow> client \<Rightarrow> panic + (('l \<times> muxConn) option \<times> client)" where
  "route [] b c = Inr (None, c\<lparr>closed := True\<rparr>)"
| "route (m # ms) b c =
     (if mux m \<noteq> b then route ms b c
      else
        (case lst m of
           None \<Rightarrow> Inl NilPointerDereference
         | Some listener \<Rightarrow> Inr (Some (listener, newMuxConn b c), c)))"

text \<open>
  The task of \<open>Handle\<close> that reads the first byte and routes: the result is the
  listener and the connection sent to it (or none) with the client after it, or the
  panic. The second task of \<open>Handle\<close> closes the client when the server is shut down
  before the first has ended.
\<close>

definition Handle ::
    "('l, 's) server \<Rightarrow> client \<Rightarrow> panic + (('l \<times> muxConn) option \<times> client)" where
  "Handle s c =
     (case readFull (incoming c) 1 of
        Inl err \<Rightarrow> Inr (None, c\<lparr>closed := True\<rparr>)
      | Inr (peeked, rest) \<Rightarrow> route (muxs s) (peeked ! 0) (c\<lparr>incoming := rest\<rparr>))"

subsection \<open>A server and a peer to evaluate\<close>

text \<open>The server \<open>NewServer\<close> builds with no option given, and a peer that sends \<open>bs\<close>.\<close>

definition bothVersions :: "(nat, string) server" where
  "bothVersions =
     \<lparr>sinkClosed = False, ownCH = True, doneClosed = False,
      muxs = [\<lparr>mux = 0x31, lst = None, server = ''v1''\<rparr>,
              \<lparr>mux = 0x32, lst = None, server = ''v2''\<rparr>]\<rparr>"

definition peer :: "byte list \<Rightarrow> client" where
  "peer bs = \<lparr>incoming = (bs, EOF), written = [], closed = False\<rparr>"

section \<open>Properties of the reader\<close>

text \<open>
  The recursive equations are unfolded by hand: \<open>consumeFinal\<close> calls itself
  under a \<open>case\<close>, and the readers unfold into every branch of the frame switch.
\<close>

declare consumeFinal.simps [simp del]

declare readEvents.simps(2) [simp del]

declare readCompressed.simps [simp del]

lemma be32_enc32:
  assumes "n < 4294967296"
  shows "be32 (enc32 n @ xs) = n"
proof -
  define a where "a = n div 256"
  define b where "b = a div 256"
  define c where "c = b div 256"
  have c: "c < 256"
    using assms unfolding c_def b_def a_def by simp
  have n: "n = a * 256 + n mod 256"
    unfolding a_def by simp
  have a: "a = b * 256 + a mod 256"
    unfolding b_def by simp
  have b: "b = c * 256 + b mod 256"
    unfolding c_def by simp
  have d1: "n div 65536 = b"
    unfolding b_def a_def by (simp add: div_mult2_eq)
  have d2: "n div 16777216 = c"
    unfolding c_def b_def a_def by (simp add: div_mult2_eq)
  have "be32 (enc32 n @ xs) = ((c mod 256 * 256 + b mod 256) * 256 + a mod 256) * 256 + n mod 256"
    by (simp add: be32_def enc32_def unat_of_nat d1 d2 a_def[symmetric])
  also have "\<dots> = n"
    using c n a b by simp
  finally show ?thesis .
qed

lemma length_enc32 [simp]: "length (enc32 n) = 4"
  by (simp add: enc32_def)

lemma readFull_append: "readFull (xs @ ys, t) (length xs) = Inr (xs, (ys, t))"
  by (simp add: readFull_def)

lemma readFull_enc32: "readFull (enc32 n @ ys, t) 4 = Inr (enc32 n, (ys, t))"
  using readFull_append [of "enc32 n" ys t] by simp

lemma readFull_2: "readFull (a # b # ys, t) 2 = Inr ([a, b], (ys, t))"
  by (simp add: readFull_def)

lemma readFull_8: "readFull (enc32 m @ enc32 n @ ys, t) 8 = Inr (enc32 m @ enc32 n, (ys, t))"
  using readFull_append [of "enc32 m @ enc32 n" ys t] by simp

lemma be32_enc32_only: "n < 4294967296 \<Longrightarrow> be32 (enc32 n) = n"
  using be32_enc32 [of n "[]"] by simp

lemma grown_Nil: "grown r [] = r"
  by (simp add: grown_def)

lemma grown_Cons: "grown r (p # ps) = grown (r\<lparr>buf := max (buf r) (length p)\<rparr>) ps"
  by (simp add: grown_def)

lemma grown_fields [simp]:
  "decoder (grown r ps) = decoder r" "deadline (grown r ps) = deadline r"
  "remoteAddr (grown r ps) = remoteAddr r" "tlsState (grown r ps) = tlsState r"
  by (simp_all add: grown_def)

lemma readJSONEvent_frame:
  assumes "length p < 4294967296"
  shows "readJSONEvent r (enc32 s @ enc32 (length p) @ p @ rest, t) =
           (case decoder r p of
              Inl e \<Rightarrow> Inl e
            | Inr event \<Rightarrow> Inr (event, (rest, t), r\<lparr>buf := max (buf r) (length p)\<rparr>))"
proof -
  have sz: "be32 (enc32 (length p)) = length p"
    using assms by (rule be32_enc32_only)
  have r1: "(if length p > buf r then r\<lparr>buf := length p\<rparr> else r) = r\<lparr>buf := max (buf r) (length p)\<rparr>"
    by (simp add: max_def)
  show ?thesis
    unfolding readJSONEvent_def readFull_8
    by (simp add: sz r1 readFull_append Let_def split: sum.splits)
qed

lemma readEvents_jsonFrame:
  assumes "length (snd f) < 4294967296" "length events < cap"
  shows "readEvents (Suc fuel) zl r (jsonFrame f @ rest, t) cap events =
           (case decoder r (snd f) of
              Inl e \<Rightarrow> Some (Inl e)
            | Inr event \<Rightarrow>
                readEvents fuel zl (r\<lparr>buf := max (buf r) (length (snd f))\<rparr>) (rest, t) cap (events @ [event]))"
proof -
  have h: "readFull (jsonFrame f @ rest, t) 2 =
             Inr ([CodeVersion, CodeJSONDataFrame],
                  (enc32 (fst f) @ enc32 (length (snd f)) @ snd f @ rest, t))"
    by (simp add: jsonFrame_def readFull_2)
  show ?thesis
    using assms by (simp add: readEvents.simps(2) h readJSONEvent_frame split: sum.splits)
qed

lemma readEvents_jsonFrames:
  assumes "list_all (\<lambda>f. length (snd f) < 4294967296) fs"
    and "map (\<lambda>f. decoder r (snd f)) fs = map Inr evs"
    and "length events + length fs \<le> cap"
  shows "readEvents (length fs + fuel) zl r (concat (map jsonFrame fs) @ rest, t) cap events =
           readEvents fuel zl (grown r (map snd fs)) (rest, t) cap (events @ evs)"
  using assms
proof (induction fs arbitrary: r events evs)
  case Nil
  then show ?case by (simp add: grown_Nil)
next
  case (Cons f fs)
  from Cons.prems(2) obtain ev evs' where evs: "evs = ev # evs'"
    and ev: "decoder r (snd f) = Inr ev"
    and rest: "map (\<lambda>f. decoder r (snd f)) fs = map Inr evs'"
    by (cases evs) auto
  let ?r = "r\<lparr>buf := max (buf r) (length (snd f))\<rparr>"
  have step: "readEvents (Suc (length fs + fuel)) zl r (jsonFrame f @ concat (map jsonFrame fs) @ rest, t) cap events
               = readEvents (length fs + fuel) zl ?r (concat (map jsonFrame fs) @ rest, t) cap (events @ [ev])"
    using Cons.prems(1,3) by (subst readEvents_jsonFrame) (simp_all add: ev)
  show ?case
    using step Cons.IH [of ?r evs' "events @ [ev]"] Cons.prems rest
    by (simp add: evs grown_Cons)
qed

lemma tailOf_refl: "tailOf s s"
  unfolding tailOf_def by (rule exI [of _ 0]) simp

lemma tailOf_trans: "tailOf s'' s' \<Longrightarrow> tailOf s' s \<Longrightarrow> tailOf s'' s"
  unfolding tailOf_def by (metis drop_drop fst_conv snd_conv)

lemma readFull_tailOf: "readFull s n = Inr (x, s') \<Longrightarrow> tailOf s' s"
  unfolding tailOf_def readFull_def by (auto split: prod.splits if_splits)

lemma readJSONEvent_tailOf: "readJSONEvent r s = Inr (ev, s', r') \<Longrightarrow> tailOf s' s"
  unfolding readJSONEvent_def
  by (auto simp: Let_def split: sum.splits prod.splits dest!: readFull_tailOf intro: tailOf_trans)

lemma limitRead_tailOf: "limitRead l k = (res, l') \<Longrightarrow> tailOf (limR l') (limR l)"
proof (cases "limN l = 0")
  case True
  assume "limitRead l k = (res, l')"
  with True have "l' = l"
    by (simp add: limitRead_def)
  then show ?thesis
    by (simp add: tailOf_refl)
next
  case False
  assume a: "limitRead l k = (res, l')"
  obtain bs t where R: "limR l = (bs, t)"
    by (cases "limR l")
  from a False R have "limR l' = (bs, t) \<or> limR l' = (drop (min k (limN l)) bs, t)"
    by (auto simp: limitRead_def streamRead_def split: if_splits)
  then show ?thesis
  proof
    assume "limR l' = (bs, t)"
    then show ?thesis
      by (simp add: R tailOf_refl)
  next
    assume "limR l' = (drop (min k (limN l)) bs, t)"
    then show ?thesis
      unfolding tailOf_def R by (intro exI [of _ "min k (limN l)"]) simp
  qed
qed

lemma limitSkip_tailOf: "tailOf (limR (limitSkip l k)) (limR l)"
  unfolding tailOf_def limitSkip_def Let_def
  by (intro exI [of _ "min k (length (fst (limitView l)))"]) simp

lemma consumeFinal_tailOf: "consumeFinal l = (e, l') \<Longrightarrow> tailOf (limR l') (limR l)"
proof (induction l arbitrary: e l' rule: consumeFinal.induct)
  case (1 limit)
  obtain tmp err l1 where lr: "limitRead limit 16 = ((tmp, err), l1)"
    by (cases "limitRead limit 16") auto
  have t1: "tailOf (limR l1) (limR limit)"
    using lr by (rule limitRead_tailOf)
  show ?case
  proof (cases err)
    case None
    from "1.prems" have "consumeFinal l1 = (e, l')"
      by (subst (asm) consumeFinal.simps) (simp add: lr None)
    then have "tailOf (limR l') (limR l1)"
      using "1.IH" [OF lr [symmetric] refl None] by simp
    then show ?thesis
      using t1 by (blast intro: tailOf_trans)
  next
    case (Some x)
    from "1.prems" have "l' = l1"
      by (subst (asm) consumeFinal.simps) (simp add: lr Some split: if_splits)
    then show ?thesis
      using t1 by simp
  qed
qed

lemma readEvents_result:
  "readEvents fuel zl r inp0 cap events = Some (Inr (evs', inp', r'))
     \<Longrightarrow> cap \<le> length evs' \<and> tailOf inp' inp0"
  "readCompressed fuel zl r inp0 cap events = Some (Inr (evs', inp', r'))
     \<Longrightarrow> cap \<le> length evs' \<and> tailOf inp' inp0"
proof (induction fuel zl r inp0 cap events and fuel zl r inp0 cap events
       arbitrary: evs' inp' r' and evs' inp' r' rule: readEvents_readCompressed.induct)
  case (1 zl r inp0 cap events)
  then show ?case by simp
next
  case (2 fuel zl r inp0 cap events)
  note p = "2.prems" [unfolded readEvents.simps(2)]
  show ?case
  proof (cases "length events < cap")
    case False
    with p show ?thesis by (simp add: tailOf_refl)
  next
    case True
    from p True obtain hdr inp1 where rf: "readFull inp0 2 = Inr (hdr, inp1)"
      by (auto split: sum.splits)
    have t1: "tailOf inp1 inp0" using rf by (rule readFull_tailOf)
    from p True rf have v: "hdr ! 0 = CodeVersion"
      by (auto split: if_splits)
    show ?thesis
    proof (cases "hdr ! 1 = CodeJSONDataFrame")
      case J: True
      from p True rf v J obtain event inp2 r2 where
        rj: "readJSONEvent r inp1 = Inr (event, inp2, r2)"
        and rec: "readEvents fuel zl r2 inp2 cap (events @ [event]) = Some (Inr (evs', inp', r'))"
        by (auto split: sum.splits)
      have "cap \<le> length evs' \<and> tailOf inp' inp2"
        using "2.IH"(1) [OF True rf refl _ J rj refl refl rec] v by simp
      moreover have "tailOf inp2 inp1" using rj by (rule readJSONEvent_tailOf)
      ultimately show ?thesis using t1 by (blast intro: tailOf_trans)
    next
      case nJ: False
      from p True rf v nJ have C: "hdr ! 1 = CodeCompressed"
        by (auto split: if_splits)
      from p True rf v nJ C obtain evs1 inp2 r2 where
        rc: "readCompressed fuel zl r inp1 cap events = Some (Inr (evs1, inp2, r2))"
        and rec: "readEvents fuel zl r2 inp2 cap evs1 = Some (Inr (evs', inp', r'))"
        by (auto split: option.splits sum.splits)
      have a: "cap \<le> length evs1 \<and> tailOf inp2 inp1"
        using "2.IH"(2) [OF True rf refl _ nJ C rc] v by simp
      have b: "cap \<le> length evs' \<and> tailOf inp' inp2"
        using "2.IH"(3) [OF True rf refl _ nJ C rc refl refl refl rec] v by simp
      show ?thesis using a b t1 by (blast intro: tailOf_trans)
    qed
  qed
next
  case (3 fuel zl r inp0 cap events)
  note p = "3.prems" [unfolded readCompressed.simps]
  from p obtain hdr inp1 where rf: "readFull inp0 4 = Inr (hdr, inp1)"
    by (auto split: sum.splits)
  define limit where "limit = LimitReader inp1 (be32 hdr)"
  from p rf obtain z where nr: "NewReader zl (limitView limit) = Inr z"
    by (auto simp: Let_def limit_def split: sum.splits)
  from p rf nr obtain z' limit' where
    rec: "readEvents fuel zl r z cap events = Some (Inr (evs', z', r'))"
    and cf: "consumeFinal (limitSkip limit (pulled zl (limitView limit) z')) = (None, limit')"
    and i: "inp' = limR limit'"
    by (auto simp: Let_def limit_def split: sum.splits option.splits prod.splits)
  have "cap \<le> length evs'"
    using "3.IH" [OF rf refl refl limit_def nr rec] by simp
  moreover have "tailOf (limR limit') inp1"
    using consumeFinal_tailOf [OF cf] limitSkip_tailOf [of limit]
    by (auto simp: limit_def LimitReader_def intro: tailOf_trans)
  then have "tailOf (limR limit') inp0"
    using readFull_tailOf [OF rf] by (blast intro: tailOf_trans)
  ultimately show ?case using i by simp
qed

text \<open>
  The limit reader delivers its view: a read of the one is a read of the other.
\<close>

lemma limitRead_limitView:
  assumes "0 < k"
  shows "fst (limitRead l k) = fst (streamRead (limitView l) k)"
    and "limitView (snd (limitRead l k)) = snd (streamRead (limitView l) k)"
proof -
  obtain bs t where R: "limR l = (bs, t)"
    by (cases "limR l")
  show "fst (limitRead l k) = fst (streamRead (limitView l) k)"
    using assms
    by (auto simp: limitRead_def streamRead_def limitView_def R min_def take_eq_Nil)
  show "limitView (snd (limitRead l k)) = snd (streamRead (limitView l) k)"
    using assms
    by (auto simp: limitRead_def streamRead_def limitView_def R min_def take_eq_Nil
          drop_take)
qed

text \<open>
  The loop that ends \<open>readCompressed\<close>, on a limit reader whose input holds the bytes it
  may still read: the loop reads them all, 16 at a time, and leaves the input behind them.
\<close>

lemma consumeFinal_present:
  "limN l \<le> length (fst (limR l))
     \<Longrightarrow> consumeFinal l
           = (None, \<lparr>limR = (drop (limN l) (fst (limR l)), snd (limR l)), limN = 0\<rparr>)"
proof (induction l rule: consumeFinal.induct)
  case (1 limit)
  obtain bs t where R: "limR limit = (bs, t)"
    by (cases "limR limit")
  show ?case
  proof (cases "limN limit = 0")
    case True
    then show ?thesis
      by (subst consumeFinal.simps) (simp add: limitRead_def R)
  next
    case False
    define k where "k = min 16 (limN limit)"
    have k: "0 < k" "k \<le> limN limit" "k \<le> length bs"
      using False "1.prems" R by (simp_all add: k_def)
    let ?l1 = "\<lparr>limR = (drop k bs, t), limN = limN limit - k\<rparr>"
    have bs: "bs \<noteq> []"
      using k by auto
    have lr: "limitRead limit 16 = ((take k bs, None), ?l1)"
      using False k bs by (simp add: limitRead_def streamRead_def R k_def [symmetric])
    have "limN ?l1 \<le> length (fst (limR ?l1))"
      using k "1.prems" R by simp
    then have "consumeFinal ?l1
        = (None, \<lparr>limR = (drop (limN ?l1) (fst (limR ?l1)), snd (limR ?l1)), limN = 0\<rparr>)"
      by (rule "1.IH" [OF lr [symmetric] refl refl])
    then have "consumeFinal ?l1 = (None, \<lparr>limR = (drop (limN limit) bs, t), limN = 0\<rparr>)"
      using k by simp
    then show ?thesis
      by (subst consumeFinal.simps) (simp add: lr R)
  qed
qed

lemma limitView_present:
  "n \<le> length bs \<Longrightarrow> limitView (LimitReader (bs, t) n) = (take n bs, EOF)"
  by (simp add: limitView_def LimitReader_def)

text \<open>
  Whatever number \<open>k\<close> of the declared bytes the zlib reader has read, it leaves the
  input inside the payload or at its end, and the loop leaves it at the end.
\<close>

lemma limitSkip_present:
  "n \<le> length bs
     \<Longrightarrow> limitSkip (LimitReader (bs, t) n) k
           = \<lparr>limR = (drop (min k n) bs, t), limN = n - min k n\<rparr>"
  by (simp add: limitSkip_def limitView_def LimitReader_def Let_def)

lemma drain_present:
  assumes "n \<le> length bs"
  shows "consumeFinal (limitSkip (LimitReader (bs, t) n) k)
           = (None, \<lparr>limR = (drop n bs, t), limN = 0\<rparr>)"
proof -
  define m where "m = min k n"
  have m: "m \<le> n"
    by (simp add: m_def)
  let ?l = "\<lparr>limR = (drop m bs, t), limN = n - m\<rparr>"
  have "limN ?l \<le> length (fst (limR ?l))"
    using assms by simp
  then have "consumeFinal ?l
      = (None, \<lparr>limR = (drop (limN ?l) (fst (limR ?l)), snd (limR ?l)), limN = 0\<rparr>)"
    by (rule consumeFinal_present)
  then show ?thesis
    using m by (simp add: limitSkip_present [OF assms] m_def [symmetric])
qed

lemma limitView_append: "limitView (LimitReader (z @ rest, t) (length z)) = (z, EOF)"
  by (simp add: limitView_present)

lemma drain_append:
  "consumeFinal (limitSkip (LimitReader (z @ rest, t) (length z)) k)
     = (None, \<lparr>limR = (rest, t), limN = 0\<rparr>)"
  by (simp add: drain_present)

lemma readFull_6: "readFull (windowHeader n @ ys, t) 6 = Inr (windowHeader n, (ys, t))"
  using readFull_append [of "windowHeader n" ys t] by (simp add: windowHeader_def)

lemma windowHeader_fields:
  "windowHeader n ! 0 = CodeVersion" "windowHeader n ! 1 = CodeWindowSize"
  "drop 2 (windowHeader n) = enc32 n"
  by (simp_all add: windowHeader_def)

lemma readEvents_done:
  "cap \<le> length events \<Longrightarrow> readEvents (Suc fuel) zl r inp0 cap events = Some (Inr (events, inp0, r))"
  by (simp add: readEvents.simps(2))

lemma readEvents_compressedFrame:
  assumes "length z < 4294967296" "length events < cap"
  shows "readEvents (Suc fuel) zl r (compressedFrame z @ rest, t) cap events =
           (case NewReader zl (z, EOF) of
              Inl e \<Rightarrow> Some (Inl e)
            | Inr zs \<Rightarrow>
                (case readEvents fuel zl r zs cap events of
                   None \<Rightarrow> None
                 | Some (Inl e) \<Rightarrow> Some (Inl e)
                 | Some (Inr (evs', z', r')) \<Rightarrow>
                     (case CloseReader zl (z, EOF) z' of
                        Some e \<Rightarrow> Some (Inl e)
                      | None \<Rightarrow> readEvents fuel zl r' (rest, t) cap evs')))"
proof -
  have h: "readFull (compressedFrame z @ rest, t) 2 =
             Inr ([CodeVersion, CodeCompressed], (enc32 (length z) @ z @ rest, t))"
    by (simp add: compressedFrame_def readFull_2)
  have ne: "CodeCompressed \<noteq> CodeJSONDataFrame"
    by (simp add: CodeCompressed_def CodeJSONDataFrame_def)
  have rc: "readCompressed fuel zl r (enc32 (length z) @ z @ rest, t) cap events =
           (case NewReader zl (z, EOF) of
              Inl e \<Rightarrow> Some (Inl e)
            | Inr zs \<Rightarrow>
                (case readEvents fuel zl r zs cap events of
                   None \<Rightarrow> None
                 | Some (Inl e) \<Rightarrow> Some (Inl e)
                 | Some (Inr (evs', z', r')) \<Rightarrow>
                     (case CloseReader zl (z, EOF) z' of
                        Some e \<Rightarrow> Some (Inl e)
                      | None \<Rightarrow> Some (Inr (evs', (rest, t), r')))))"
    using assms(1)
    by (subst readCompressed.simps)
       (simp add: readFull_enc32 be32_enc32_only limitView_append drain_append Let_def
             split: sum.splits option.splits)
  show ?thesis
    using assms(2) by (simp add: readEvents.simps(2) h ne rc split: sum.splits option.splits)
qed

lemmas frame_defs = windowHeader_def jsonFrame_def compressedFrame_def enc32_def
  CodeVersion_def CodeWindowSize_def CodeJSONDataFrame_def CodeCompressed_def

lemmas run_defs = ReadBatch_def readEvents.simps(2) readCompressed.simps readJSONEvent_def
  readFull_def be32_def limitView_present drain_present NewBatchWithSourceMetadata_def
  storedZlib_def sampleReader_def

subsection \<open>The layouts of a window\<close>

text \<open>
  Reading a layout that completes the window: \<open>readEvents\<close> returns the events of
  its payloads after those it was given, and leaves the input behind the layout. Inside
  a compressed frame this is the induction hypothesis on the decompressed stream; the
  loop that ends \<open>readCompressed\<close> then moves the input to the end of the payload.
\<close>

lemma turns_pos: "0 < turns w"
  by (cases w) simp_all

lemma grown_append: "grown (grown r ps) qs = grown r (ps @ qs)"
  by (simp add: grown_def)

lemma readEvents_layout:
  assumes "wellPacked zl w"
    and "map (decoder r) (payloads w) = map Inr evs"
    and "length acc + length (payloads w) = cap"
    and "turns w \<le> fuel"
  shows "readEvents fuel zl r (bytesOf w @ rest, t) cap acc
           = Some (Inr (acc @ evs, (rest, t), grown r (payloads w)))"
  using assms
proof (induction w arbitrary: fuel r acc evs rest t)
  case (Plain fs)
  define d where "d = fuel - Suc (length fs)"
  have fuel: "fuel = length fs + Suc d"
    using Plain.prems(4) by (simp add: d_def)
  have m: "map (\<lambda>f. decoder r (snd f)) fs = map Inr evs"
    using Plain.prems(2) by (simp add: comp_def)
  have len: "length evs = length fs"
    using m by (metis length_map)
  have "readEvents fuel zl r (concat (map jsonFrame fs) @ rest, t) cap acc
          = readEvents (Suc d) zl (grown r (map snd fs)) (rest, t) cap (acc @ evs)"
    unfolding fuel using Plain.prems(1,3) m by (intro readEvents_jsonFrames) simp_all
  also have "\<dots> = Some (Inr (acc @ evs, (rest, t), grown r (map snd fs)))"
    using Plain.prems(3) len by (simp add: readEvents_done)
  finally show ?case
    by simp
next
  case (Packed fs z inner surplus)
  note wp = Packed.prems(1) [simplified]
  define k where "k = fuel - Suc (length fs)"
  have fuel: "fuel = length fs + Suc k"
    using Packed.prems(4) by (simp add: k_def)
  have k: "turns inner \<le> k"
    using Packed.prems(4) by (simp add: k_def)
  obtain k' where k': "k = Suc k'"
    using k turns_pos [of inner] by (cases k) simp_all
  define evs1 where "evs1 = take (length fs) evs"
  define evs2 where "evs2 = drop (length fs) evs"
  have evs: "evs = evs1 @ evs2"
    by (simp add: evs1_def evs2_def)
  have all: "map (\<lambda>f. decoder r (snd f)) fs @ map (decoder r) (payloads inner) = map Inr evs"
    using Packed.prems(2) by (simp add: comp_def)
  have m1: "map (\<lambda>f. decoder r (snd f)) fs = map Inr evs1"
    using arg_cong [OF all, of "take (length fs)"] by (simp add: evs1_def take_map)
  have m2: "map (decoder r) (payloads inner) = map Inr evs2"
    using arg_cong [OF all, of "drop (length fs)"] by (simp add: evs2_def drop_map)
  have l1: "length evs1 = length fs"
    using m1 by (metis length_map)
  have l2: "length evs2 = length (payloads inner)"
    using m2 by (metis length_map)
  let ?r1 = "grown r (map snd fs)"
  let ?r2 = "grown ?r1 (payloads inner)"
  have cap: "length (acc @ evs1) + length (payloads inner) = cap"
    using Packed.prems(3) l1 by simp
  have lt: "length (acc @ evs1) < cap"
    using cap wp by (cases "payloads inner") simp_all
  have outer: "readEvents fuel zl r (concat (map jsonFrame fs) @ compressedFrame z @ rest, t) cap acc
          = readEvents (Suc k) zl ?r1 (compressedFrame z @ rest, t) cap (acc @ evs1)"
    unfolding fuel using wp m1 Packed.prems(3)
    by (intro readEvents_jsonFrames) simp_all
  have inner: "readEvents k zl ?r1 (bytesOf inner @ fst surplus, snd surplus) cap (acc @ evs1)
          = Some (Inr ((acc @ evs1) @ evs2, (fst surplus, snd surplus), ?r2))"
    using wp m2 cap k by (intro Packed.IH) simp_all
  have nr: "NewReader zl (z, EOF) = Inr (bytesOf inner @ fst surplus, snd surplus)"
    using wp by simp
  have cl: "CloseReader zl (z, EOF) (fst surplus, snd surplus) = None"
    using wp by simp
  have full: "cap \<le> length ((acc @ evs1) @ evs2)"
    using cap l2 by simp
  have "readEvents (Suc k) zl ?r1 (compressedFrame z @ rest, t) cap (acc @ evs1)
          = readEvents k zl ?r2 (rest, t) cap ((acc @ evs1) @ evs2)"
    using lt wp by (simp add: readEvents_compressedFrame nr inner cl del: append_assoc)
  also have "\<dots> = Some (Inr ((acc @ evs1) @ evs2, (rest, t), ?r2))"
    unfolding k' using full by (rule readEvents_done)
  finally show ?case
    using outer by (simp add: evs grown_append)
qed

text \<open>
  A window whose compressed frame holds fewer events than are missing: the inner
  \<open>readEvents\<close> fills the same slice up to the same capacity, so it reads on at the
  end of the decompressed stream and returns \<open>io.EOF\<close>, which \<open>readCompressed\<close>,
  \<open>readEvents\<close> and \<open>ReadBatch\<close> pass on.
\<close>

lemma ReadBatch_compressed_short:
  assumes "inflates zl z (concat (map jsonFrame post))"
    and "length pre + length post < n"
    and "n < 4294967296" and "length z < 4294967296"
    and "list_all (\<lambda>f. length (snd f) < 4294967296) (pre @ post)"
    and "map (\<lambda>f. decoder r (snd f)) (pre @ post) = map Inr evs"
    and "deadline r = None"
    and "length pre + length post + 2 \<le> fuel"
  shows "ReadBatch fuel zl r
            (windowHeader n @ concat (map jsonFrame pre) @ compressedFrame z @ rest, t) =
           Some (Inl EOF)"
proof -
  define d where "d = fuel - (length pre + length post + 2)"
  have fuel: "fuel = length pre + Suc (Suc (length post + d))"
    using assms(8) by (simp add: d_def)
  let ?k = "Suc (length post + d)"
  let ?s = "concat (map jsonFrame post)"
  define evs1 where "evs1 = take (length pre) evs"
  define evs2 where "evs2 = drop (length pre) evs"
  have m1: "map (\<lambda>f. decoder r (snd f)) pre = map Inr evs1"
    using arg_cong [OF assms(6), of "take (length pre)"] by (simp add: evs1_def take_map)
  have m2: "map (\<lambda>f. decoder r (snd f)) post = map Inr evs2"
    using arg_cong [OF assms(6), of "drop (length pre)"] by (simp add: evs2_def drop_map)
  have l1: "length evs1 = length pre"
    using m1 by (metis length_map)
  have l2: "length evs2 = length post"
    using m2 by (metis length_map)
  let ?r1 = "grown r (map snd pre)"
  let ?r2 = "grown ?r1 (map snd post)"
  have outer: "readEvents fuel zl r (concat (map jsonFrame pre) @ compressedFrame z @ rest, t) n []
          = readEvents (Suc ?k) zl ?r1 (compressedFrame z @ rest, t) n ([] @ evs1)"
    unfolding fuel using assms(5) m1 assms(2) by (intro readEvents_jsonFrames) simp_all
  have "readEvents (length post + Suc d) zl ?r1 (?s @ [], EOF) n evs1
          = readEvents (Suc d) zl ?r2 ([], EOF) n (evs1 @ evs2)"
    using assms(5) m2 assms(2) l1 by (intro readEvents_jsonFrames) simp_all
  then have inner: "readEvents ?k zl ?r1 (?s, EOF) n evs1
          = readEvents (Suc d) zl ?r2 ([], EOF) n (evs1 @ evs2)"
    by (simp only: add_Suc_right append_Nil2)
  have inner': "readEvents ?k zl ?r1 (?s, EOF) n evs1 = Some (Inl EOF)"
    unfolding inner using l1 l2 assms(2) by (simp add: readEvents.simps(2) readFull_def)
  have nr: "NewReader zl (z, EOF) = Inr (?s, EOF)"
    using assms(1) by (simp add: inflates_def)
  have lt: "length evs1 < n"
    using l1 assms(2) by simp
  have "readEvents (Suc ?k) zl ?r1 (compressedFrame z @ rest, t) n evs1 = Some (Inl EOF)"
    using lt assms(4) by (simp add: readEvents_compressedFrame nr inner')
  then have re: "readEvents fuel zl r (concat (map jsonFrame pre) @ compressedFrame z @ rest, t) n []
          = Some (Inl EOF)"
    using outer by simp
  have cnt: "be32 (enc32 n) = n"
    using assms(3) by (rule be32_enc32_only)
  have "0 < n"
    using assms(2) by simp
  then show ?thesis
    using assms(7)
    by (simp add: ReadBatch_def readFull_6 windowHeader_fields cnt re)
qed

subsection \<open>Window headers (C1)\<close>

lemma ReadBatch_both_wrong:
  assumes "v \<noteq> CodeVersion" and "w \<noteq> CodeWindowSize"
  shows "ReadBatch fuel zl r (v # w # n1 # n2 # n3 # n4 # rest, t) = Some (Inl ErrProtocolError)"
  using assms by (simp add: ReadBatch_def readFull_def)

lemma readEvents_bad_header:
  assumes "length events < cap" and "v \<noteq> CodeVersion \<or> (w \<noteq> CodeJSONDataFrame \<and> w \<noteq> CodeCompressed)"
  shows "readEvents (Suc fuel) zl r (v # w # rest, t) cap events = Some (Inl ErrProtocolError)"
  using assms by (auto simp: readEvents.simps(2) readFull_def)

text \<open>
  C1 (the code departs from the claim). The claim: a window header whose version byte is
  not \<open>'2'\<close> or whose type byte is not \<open>'W'\<close> makes \<open>ReadBatch\<close> return a protocol
  error and no Batch. The source tests \<open>win[0] != CodeVersion && win[1] !=
  CodeWindowSize\<close>, so only a header with both bytes wrong is refused
  (\<open>ReadBatch_both_wrong\<close>). Here the header is \<open>'1' 'W' 0 0 0 1\<close>, followed by one
  JSON frame: \<open>ReadBatch\<close> returns a Batch of one event. The event header, the second
  half of the claim, is checked as the claim says (\<open>readEvents_bad_header\<close>).
\<close>

theorem ReadBatch_wrong_version_accepted:
  "ReadBatch (Suc (Suc 0)) storedZlib sampleReader
     ([0x31, 0x57, 0, 0, 0, 1] @ jsonFrame (1, [0x7B, 0x7D]), EOF) =
   Some (Inr (Some \<lparr>Events = [[0x7B, 0x7D]], RemoteAddr = ''192.0.2.1:5044'', TLS = None\<rparr>,
              ([], EOF), sampleReader\<lparr>buf := 2\<rparr>))"
  by (simp add: frame_defs run_defs)

lemma ReadBatch_wrong_type_accepted:
  "ReadBatch fuel zl r ([0x32, 0x58, 0, 0, 0, 0] @ rest, t) = Some (Inr (None, (rest, t), r))"
  by (simp add: ReadBatch_def readFull_def be32_def CodeVersion_def)

subsection \<open>The events of a window (C2)\<close>

text \<open>
  C2 (counterexample to the claim as stated). A window of size 2 whose first event is in
  a compressed frame and whose second event is a JSON frame after it: both frames are
  well formed and both payloads decode, and \<open>ReadBatch\<close> returns the error \<open>io.EOF\<close>
  and no Batch. The compressed frame does not complete the window, so the inner
  \<open>readEvents\<close> asks the decompressed stream for a second event header
  (\<open>ReadBatch_compressed_short\<close> is the general statement).
\<close>

theorem compressed_frame_first_counterexample:
  "ReadBatch (Suc (Suc (Suc (Suc 0)))) storedZlib sampleReader
     (windowHeader 2 @ compressedFrame (jsonFrame (1, [0x7B, 0x7D])) @ jsonFrame (2, [0x5B, 0x5D]), EOF)
   = Some (Inl EOF)"
  by (simp add: frame_defs run_defs)

text \<open>
  C2 (amended). The input holds the header of a window of \<open>n \<ge> 1\<close> events, then the
  layout \<open>w\<close> of these events, then anything: JSON frames, the last of them possibly
  inside a compressed frame that ends the window, where again the last may be inside a
  compressed frame, to any depth; every compressed frame holds all the events still
  missing when it is read. If the decoder returns the events \<open>evs\<close> for the payloads,
  in wire order, and the deadline can be armed, then \<open>ReadBatch\<close> with fuel for the
  turns of its loops returns the Batch whose events are \<open>evs\<close>, exactly \<open>n\<close> of them,
  and leaves the input right after the window.
\<close>

theorem ReadBatch_window:
  assumes "wellPacked zl w"
    and "n = length (payloads w)" and "0 < n" and "n < 4294967296"
    and "map (decoder r) (payloads w) = map Inr evs"
    and "deadline r = None"
    and "turns w \<le> fuel"
  shows "ReadBatch fuel zl r (windowHeader n @ bytesOf w @ rest, t) =
           Some (Inr (Some \<lparr>Events = evs, RemoteAddr = remoteAddr r, TLS = tlsState r\<rparr>,
                      (rest, t), grown r (payloads w)))
         \<and> length evs = n"
proof -
  have len: "length evs = n"
    using assms(2,5) by (metis length_map)
  have re: "readEvents fuel zl r (bytesOf w @ rest, t) n [] =
              Some (Inr ([] @ evs, (rest, t), grown r (payloads w)))"
    using assms(1,5,2,7) by (intro readEvents_layout) simp_all
  have cnt: "be32 (enc32 n) = n"
    using assms(4) by (rule be32_enc32_only)
  show ?thesis
    using assms(3,6) len
    by (simp add: ReadBatch_def readFull_6 windowHeader_fields cnt re
          NewBatchWithSourceMetadata_def)
qed

theorem ReadBatch_window_witness:
  "ReadBatch (Suc (Suc (Suc 0))) storedZlib sampleReader
     (windowHeader 2 @ jsonFrame (1, [0x7B, 0x7D]) @ jsonFrame (2, [0x5B, 0x5D]) @ [0x32], EOF) =
   Some (Inr (Some \<lparr>Events = [[0x7B, 0x7D], [0x5B, 0x5D]],
                    RemoteAddr = ''192.0.2.1:5044'', TLS = None\<rparr>,
              ([0x32], EOF), sampleReader\<lparr>buf := 2\<rparr>))
   \<and> ReadBatch (Suc (Suc (Suc (Suc (Suc (Suc 0)))))) storedZlib sampleReader
     (windowHeader 3 @ jsonFrame (1, [0x7B, 0x7D])
        @ compressedFrame (jsonFrame (2, [0x5B, 0x5D]) @ compressedFrame (jsonFrame (3, [0x31])))
        @ [0x32], EOF) =
   Some (Inr (Some \<lparr>Events = [[0x7B, 0x7D], [0x5B, 0x5D], [0x31]],
                    RemoteAddr = ''192.0.2.1:5044'', TLS = None\<rparr>,
              ([0x32], EOF), sampleReader\<lparr>buf := 2\<rparr>))"
proof -
  have a: "ReadBatch (Suc (Suc (Suc 0))) storedZlib sampleReader
     (windowHeader 2 @ jsonFrame (1, [0x7B, 0x7D]) @ jsonFrame (2, [0x5B, 0x5D]) @ [0x32], EOF) =
   Some (Inr (Some \<lparr>Events = [[0x7B, 0x7D], [0x5B, 0x5D]],
                    RemoteAddr = ''192.0.2.1:5044'', TLS = None\<rparr>,
              ([0x32], EOF), sampleReader\<lparr>buf := 2\<rparr>))"
    using ReadBatch_window [where zl = storedZlib
      and w = "Plain [(1, [0x7B, 0x7D]), (2, [0x5B, 0x5D])]" and n = 2 and r = sampleReader
      and evs = "[[0x7B, 0x7D], [0x5B, 0x5D]]" and fuel = "Suc (Suc (Suc 0))"
      and rest = "[0x32]" and t = EOF]
    by (simp add: sampleReader_def grown_def numeral_2_eq_2)
  let ?w = "Packed [(1, [0x7B, 0x7D])]
              (jsonFrame (2, [0x5B, 0x5D]) @ compressedFrame (jsonFrame (3, [0x31])))
              (Packed [(2, [0x5B, 0x5D])] (jsonFrame (3, [0x31])) (Plain [(3, [0x31])]) ([], EOF))
              ([], EOF)"
  have p: "wellPacked storedZlib ?w"
    by (simp add: storedZlib_def frame_defs)
  have b: "ReadBatch (Suc (Suc (Suc (Suc (Suc (Suc 0)))))) storedZlib sampleReader
     (windowHeader 3 @ jsonFrame (1, [0x7B, 0x7D])
        @ compressedFrame (jsonFrame (2, [0x5B, 0x5D]) @ compressedFrame (jsonFrame (3, [0x31])))
        @ [0x32], EOF) =
   Some (Inr (Some \<lparr>Events = [[0x7B, 0x7D], [0x5B, 0x5D], [0x31]],
                    RemoteAddr = ''192.0.2.1:5044'', TLS = None\<rparr>,
              ([0x32], EOF), sampleReader\<lparr>buf := 2\<rparr>))"
    using ReadBatch_window [OF p, where n = 3 and r = sampleReader
      and evs = "[[0x7B, 0x7D], [0x5B, 0x5D], [0x31]]"
      and fuel = "Suc (Suc (Suc (Suc (Suc (Suc 0)))))" and rest = "[0x32]" and t = EOF]
    by (simp add: sampleReader_def grown_def numeral_3_eq_3)
  show ?thesis
    using a b by (rule conjI)
qed

subsection \<open>Compressed and uncompressed windows (C3)\<close>

text \<open>
  C3. Let the library decompress the payload \<open>z\<close> to the bytes \<open>s\<close>. A window of
  size \<open>n\<close> that carries \<open>s\<close> in one compressed frame around \<open>z\<close>, whatever follows
  it, gives the caller of \<open>ReadBatch\<close> what the window that carries \<open>s\<close> itself
  gives: the same Batch with the same events, or the same error. The compressed window
  costs one unit of fuel more, for the turn of the loop that reads the compressed frame.
\<close>

theorem compressed_same_batch:
  assumes "inflates zl z s" and "length z < 4294967296" and "n < 4294967296"
  shows "batchOf (ReadBatch (Suc fuel) zl r (windowHeader n @ compressedFrame z @ rest, t))
       = batchOf (ReadBatch fuel zl r (windowHeader n @ s, EOF))"
proof (cases "n = 0 \<or> deadline r \<noteq> None")
  case True
  then show ?thesis
    using assms(3)
    by (auto simp: ReadBatch_def readFull_6 windowHeader_fields be32_enc32_only batchOf_def)
next
  case False
  then have n: "0 < n" and dl: "deadline r = None" by simp_all
  have cnt: "be32 (enc32 n) = n"
    using assms(3) by (rule be32_enc32_only)
  have nr: "NewReader zl (z, EOF) = Inr (s, EOF)"
    using assms(1) by (simp add: inflates_def)
  let ?U = "readEvents fuel zl r (s, EOF) n []"
  have C: "readEvents (Suc fuel) zl r (compressedFrame z @ rest, t) n [] =
             (case ?U of
                None \<Rightarrow> None
              | Some (Inl e) \<Rightarrow> Some (Inl e)
              | Some (Inr (evs', z', r')) \<Rightarrow> Some (Inr (evs', (rest, t), r')))"
  proof (cases ?U)
    case None
    then show ?thesis
      using n assms(2) by (simp add: readEvents_compressedFrame nr)
  next
    case (Some res)
    show ?thesis
    proof (cases res)
      case (Inl e)
      then show ?thesis
        using Some n assms(2) by (simp add: readEvents_compressedFrame nr)
    next
      case (Inr tr)
      obtain evs' z' r' where tr: "tr = (evs', z', r')"
        by (cases tr)
      have U: "?U = Some (Inr (evs', z', r'))"
        using Some Inr tr by simp
      from readEvents_result(1) [OF U] have full: "n \<le> length evs'" and tl: "tailOf z' (s, EOF)"
        by simp_all
      from tl obtain k where z': "z' = (drop k s, EOF)"
        by (auto simp: tailOf_def)
      have "z' = (drop (min k (length s)) s, EOF)"
        unfolding z' by (cases "k \<le> length s") (simp_all add: min_def)
      moreover have "min k (length s) \<in> set [0 ..< Suc (length s)]"
        by (auto simp: min_def)
      moreover have "\<forall>k\<in>set [0 ..< Suc (length s)]. CloseReader zl (z, EOF) (drop k s, EOF) = None"
        using assms(1) by (simp add: inflates_def list_all_iff)
      ultimately have cl: "CloseReader zl (z, EOF) z' = None"
        by (metis (no_types, lifting))
      have pos: "fuel \<noteq> 0"
        using U by (cases fuel) simp_all
      then obtain f' where f': "fuel = Suc f'"
        by (cases fuel) simp_all
      have "readEvents fuel zl r' (rest, t) n evs' = Some (Inr (evs', (rest, t), r'))"
        unfolding f' using full by (rule readEvents_done)
      then show ?thesis
        using U n assms(2) by (simp add: readEvents_compressedFrame nr cl)
    qed
  qed
  show ?thesis
    using n dl
    by (simp add: ReadBatch_def readFull_6 windowHeader_fields cnt C batchOf_def
             split: option.splits sum.splits)
qed

theorem compressed_same_batch_witness:
  "inflates storedZlib (jsonFrame (1, [0x7B, 0x7D])) (jsonFrame (1, [0x7B, 0x7D]))
   \<and> batchOf (ReadBatch (Suc (Suc 0)) storedZlib sampleReader
         (windowHeader 1 @ jsonFrame (1, [0x7B, 0x7D]), EOF))
       = Some (Inr (Some \<lparr>Events = [[0x7B, 0x7D]], RemoteAddr = ''192.0.2.1:5044'', TLS = None\<rparr>))
   \<and> batchOf (ReadBatch (Suc (Suc (Suc 0))) storedZlib sampleReader
         (windowHeader 1 @ compressedFrame (jsonFrame (1, [0x7B, 0x7D])) @ [0x32, 0x57], EOF))
       = Some (Inr (Some \<lparr>Events = [[0x7B, 0x7D]], RemoteAddr = ''192.0.2.1:5044'', TLS = None\<rparr>))"
proof -
  have i: "inflates storedZlib (jsonFrame (1, [0x7B, 0x7D])) (jsonFrame (1, [0x7B, 0x7D]))"
    by (simp add: inflates_def storedZlib_def frame_defs list_all_iff)
  have u: "batchOf (ReadBatch (Suc (Suc 0)) storedZlib sampleReader
             (windowHeader 1 @ jsonFrame (1, [0x7B, 0x7D]), EOF))
       = Some (Inr (Some \<lparr>Events = [[0x7B, 0x7D]], RemoteAddr = ''192.0.2.1:5044'', TLS = None\<rparr>))"
    by (simp add: batchOf_def frame_defs run_defs)
  have l: "length (jsonFrame (1, [0x7B, 0x7D])) < 4294967296"
    by (simp add: frame_defs)
  show ?thesis
    using compressed_same_batch [OF i l, of 1 "Suc (Suc 0)" sampleReader "[0x32, 0x57]" EOF] i u
    by simp
qed

subsection \<open>The declared length of a compressed frame (C4)\<close>

lemma readCompressed_rest:
  assumes "readCompressed fuel zl r (bs, t) cap events = Some (Inr (evs', inp', r'))"
    and "4 + be32 bs \<le> length bs"
  shows "inp' = (drop (4 + be32 bs) bs, t)"
proof -
  have rf: "readFull (bs, t) 4 = Inr (take 4 bs, (drop 4 bs, t))"
    using assms(2) by (simp add: readFull_def)
  have sz: "be32 (take 4 bs) = be32 bs"
    by (simp add: be32_def)
  have dr: "consumeFinal (limitSkip (LimitReader (drop 4 bs, t) (be32 bs)) k)
              = (None, \<lparr>limR = (drop (be32 bs) (drop 4 bs), t), limN = 0\<rparr>)" for k
    using assms(2) by (intro drain_present) simp
  from assms(1) have "inp' = (drop (be32 bs) (drop 4 bs), t)"
    by (subst (asm) readCompressed.simps)
       (auto simp: rf sz dr Let_def split: sum.splits option.splits)
  then show ?thesis
    by (simp add: add.commute)
qed

text \<open>
  C4. \<open>readCompressed\<close> starts at the length field of a compressed frame; \<open>bs\<close> is the
  input from there on and holds the \<open>L = be32 bs\<close> bytes the frame declares. If the
  zlib reader opens on these \<open>L\<close> bytes, the events are decoded from its stream and
  its \<open>Close\<close> returns no error, then \<open>readCompressed\<close> returns the events and
  leaves the input \<open>L\<close> bytes past the length field, wherever the zlib stream ended;
  and whenever \<open>readCompressed\<close> returns events, it has left the input there. It is
  the loop at the end that does it: a zlib reader that has read \<open>k\<close> of the declared
  bytes leaves the input \<open>k\<close> bytes past the length field, whatever \<open>k\<close> is, and the
  loop reads the limit reader to its end, which is \<open>L\<close> bytes past the length field.
\<close>

theorem readCompressed_consumes_declared:
  assumes "4 + be32 bs \<le> length bs"
  shows "(NewReader zl (take (be32 bs) (drop 4 bs), EOF) = Inr z
            \<and> readEvents fuel zl r z cap events = Some (Inr (events', z', r'))
            \<and> CloseReader zl (take (be32 bs) (drop 4 bs), EOF) z' = None
          \<longrightarrow> readCompressed fuel zl r (bs, t) cap events
                = Some (Inr (events', (drop (4 + be32 bs) bs, t), r')))
         \<and> (\<forall>evs inp' r''.
               readCompressed fuel zl r (bs, t) cap events = Some (Inr (evs, inp', r''))
               \<longrightarrow> inp' = (drop (4 + be32 bs) bs, t)
                   \<and> length (fst inp') + (4 + be32 bs) = length bs)
         \<and> (\<forall>k. limR (limitSkip (LimitReader (drop 4 bs, t) (be32 bs)) k)
                   = (drop (4 + min k (be32 bs)) bs, t)
                 \<and> consumeFinal (limitSkip (LimitReader (drop 4 bs, t) (be32 bs)) k)
                   = (None, \<lparr>limR = (drop (4 + be32 bs) bs, t), limN = 0\<rparr>))"
proof -
  have rf: "readFull (bs, t) 4 = Inr (take 4 bs, (drop 4 bs, t))"
    using assms by (simp add: readFull_def)
  have sz: "be32 (take 4 bs) = be32 bs"
    by (simp add: be32_def)
  have le: "be32 bs \<le> length (drop 4 bs)"
    using assms by simp
  have lv: "limitView (LimitReader (drop 4 bs, t) (be32 bs)) = (take (be32 bs) (drop 4 bs), EOF)"
    using le by (rule limitView_present)
  have dr: "consumeFinal (limitSkip (LimitReader (drop 4 bs, t) (be32 bs)) k)
              = (None, \<lparr>limR = (drop (4 + be32 bs) bs, t), limN = 0\<rparr>)" for k
    using drain_present [OF le, of t k] by (simp add: add.commute)
  have sk: "limR (limitSkip (LimitReader (drop 4 bs, t) (be32 bs)) k)
              = (drop (4 + min k (be32 bs)) bs, t)" for k
    using limitSkip_present [OF le, of t k] by (simp add: add.commute)
  have a: "readCompressed fuel zl r (bs, t) cap events
             = Some (Inr (events', (drop (4 + be32 bs) bs, t), r'))"
    if "NewReader zl (take (be32 bs) (drop 4 bs), EOF) = Inr z"
      and "readEvents fuel zl r z cap events = Some (Inr (events', z', r'))"
      and "CloseReader zl (take (be32 bs) (drop 4 bs), EOF) z' = None"
    using that by (subst readCompressed.simps) (simp add: rf sz lv dr Let_def)
  have b: "inp' = (drop (4 + be32 bs) bs, t) \<and> length (fst inp') + (4 + be32 bs) = length bs"
    if "readCompressed fuel zl r (bs, t) cap events = Some (Inr (evs, inp', r''))"
    for evs inp' r''
    using readCompressed_rest [OF that assms] assms by simp
  show ?thesis
    using a b dr sk by blast
qed

theorem readCompressed_consumes_declared_witness:
  "be32 (enc32 29 @ jsonFrame (1, [0x7B, 0x7D]) @ 0xFF # replicate 16 0xAA @ [0x32, 0x57]) = 29
   \<and> NewReader storedZlib (jsonFrame (1, [0x7B, 0x7D]) @ 0xFF # replicate 16 0xAA, EOF)
       = Inr (jsonFrame (1, [0x7B, 0x7D]), EOF)
   \<and> pulled storedZlib (jsonFrame (1, [0x7B, 0x7D]) @ 0xFF # replicate 16 0xAA, EOF) ([], EOF) = 12
   \<and> limR (limitSkip
        (LimitReader (jsonFrame (1, [0x7B, 0x7D]) @ 0xFF # replicate 16 0xAA @ [0x32, 0x57], EOF) 29)
        12)
       = (0xFF # replicate 16 0xAA @ [0x32, 0x57], EOF)
   \<and> readCompressed (Suc (Suc 0)) storedZlib sampleReader
         (enc32 29 @ jsonFrame (1, [0x7B, 0x7D]) @ 0xFF # replicate 16 0xAA @ [0x32, 0x57], EOF) 1 []
       = Some (Inr ([[0x7B, 0x7D]], ([0x32, 0x57], EOF), sampleReader\<lparr>buf := 2\<rparr>))"
proof -
  let ?p = "jsonFrame (1, [0x7B, 0x7D]) @ 0xFF # replicate 16 0xAA"
  let ?bs = "enc32 29 @ jsonFrame (1, [0x7B, 0x7D]) @ 0xFF # replicate 16 0xAA @ [0x32, 0x57]"
  have sz: "be32 ?bs = 29"
    by (simp add: be32_enc32)
  have le: "4 + be32 ?bs \<le> length ?bs"
    unfolding sz by (simp add: frame_defs)
  have d4: "drop 4 ?bs = ?p @ [0x32, 0x57]"
    by (simp add: enc32_def)
  have lp: "length ?p = 29"
    by (simp add: frame_defs)
  have tk: "take (be32 ?bs) (drop 4 ?bs) = ?p"
    unfolding sz d4 using lp by simp
  have dr: "drop (4 + be32 ?bs) ?bs = [0x32, 0x57]"
    using arg_cong [OF d4, of "drop 29"] lp unfolding sz by (simp add: add.commute)
  have d12: "drop (4 + min 12 (be32 ?bs)) ?bs = 0xFF # replicate 16 0xAA @ [0x32, 0x57]"
    using arg_cong [OF d4, of "drop 12"] unfolding sz by (simp add: add.commute frame_defs)
  have nr: "NewReader storedZlib (?p, EOF) = Inr (jsonFrame (1, [0x7B, 0x7D]), EOF)"
    by (simp add: storedZlib_def frame_defs)
  have pl: "pulled storedZlib (?p, EOF) ([], EOF) = 12"
    by (simp add: storedZlib_def frame_defs)
  have inner: "readEvents (Suc (Suc 0)) storedZlib sampleReader (jsonFrame (1, [0x7B, 0x7D]), EOF) 1 []
                 = Some (Inr ([[0x7B, 0x7D]], ([], EOF), sampleReader\<lparr>buf := 2\<rparr>))"
    by (simp add: frame_defs run_defs)
  have cl: "CloseReader storedZlib (?p, EOF) ([], EOF) = None"
    by (simp add: storedZlib_def)
  note t = readCompressed_consumes_declared [OF le, of storedZlib "(jsonFrame (1, [0x7B, 0x7D]), EOF)"
      "Suc (Suc 0)" sampleReader 1 "[]" "[[0x7B, 0x7D]]" "([], EOF)" "sampleReader\<lparr>buf := 2\<rparr>" EOF]
  from t have "NewReader storedZlib (?p, EOF) = Inr (jsonFrame (1, [0x7B, 0x7D]), EOF)
            \<and> readEvents (Suc (Suc 0)) storedZlib sampleReader (jsonFrame (1, [0x7B, 0x7D]), EOF) 1 []
                = Some (Inr ([[0x7B, 0x7D]], ([], EOF), sampleReader\<lparr>buf := 2\<rparr>))
            \<and> CloseReader storedZlib (?p, EOF) ([], EOF) = None
          \<longrightarrow> readCompressed (Suc (Suc 0)) storedZlib sampleReader (?bs, EOF) 1 []
                = Some (Inr ([[0x7B, 0x7D]], ([0x32, 0x57], EOF), sampleReader\<lparr>buf := 2\<rparr>))"
    unfolding tk dr by (rule conjunct1)
  then have rc: "readCompressed (Suc (Suc 0)) storedZlib sampleReader (?bs, EOF) 1 []
          = Some (Inr ([[0x7B, 0x7D]], ([0x32, 0x57], EOF), sampleReader\<lparr>buf := 2\<rparr>))"
    using nr inner cl by blast
  from t have "\<forall>k. limR (limitSkip (LimitReader (drop 4 ?bs, EOF) (be32 ?bs)) k)
                   = (drop (4 + min k (be32 ?bs)) ?bs, EOF)
                 \<and> consumeFinal (limitSkip (LimitReader (drop 4 ?bs, EOF) (be32 ?bs)) k)
                   = (None, \<lparr>limR = (drop (4 + be32 ?bs) ?bs, EOF), limN = 0\<rparr>)"
    by (rule conjunct2 [THEN conjunct2])
  then have "limR (limitSkip (LimitReader (drop 4 ?bs, EOF) (be32 ?bs)) 12)
                   = (drop (4 + min 12 (be32 ?bs)) ?bs, EOF)"
    by blast
  then have sk: "limR (limitSkip (LimitReader (?p @ [0x32, 0x57], EOF) 29) 12)
                   = (0xFF # replicate 16 0xAA @ [0x32, 0x57], EOF)"
    unfolding d12 unfolding d4 sz .
  show ?thesis
    using sz nr pl sk rc by simp
qed

subsection \<open>Surplus events in a compressed frame (C10)\<close>

text \<open>
  C10. A window of size \<open>n\<close> holds the JSON frames \<open>pre\<close> and then a compressed
  frame whose payload decompresses to the JSON frames \<open>post\<close>, which complete the
  window, followed by any bytes \<open>surplus\<close>: more event frames, or anything else.
  \<open>ReadBatch\<close> with fuel from \<open>n + 2\<close> returns the Batch of the \<open>n\<close> events of
  \<open>pre\<close> and \<open>post\<close> and no error; the surplus is neither read nor decoded (the
  decoder is asked about \<open>pre\<close> and \<open>post\<close> only), and the input is left right after
  the compressed frame's declared bytes. The declared bytes that the zlib reader has not
  read are read by the loop that ends \<open>readCompressed\<close>: a zlib reader that has read
  \<open>k\<close> bytes of the payload leaves the input inside the payload, \<open>k\<close> bytes into it,
  and the loop reads the others and leaves the input at the end of the payload.
\<close>

theorem surplus_discarded:
  assumes "inflates zl z (concat (map jsonFrame post) @ surplus)"
    and "post \<noteq> []" and "n = length pre + length post"
    and "n < 4294967296" and "length z < 4294967296"
    and "list_all (\<lambda>f. length (snd f) < 4294967296) (pre @ post)"
    and "map (\<lambda>f. decoder r (snd f)) (pre @ post) = map Inr evs"
    and "deadline r = None"
    and "n + 2 \<le> fuel"
  shows "ReadBatch fuel zl r
            (windowHeader n @ concat (map jsonFrame pre) @ compressedFrame z @ rest, t) =
           Some (Inr (Some \<lparr>Events = evs, RemoteAddr = remoteAddr r, TLS = tlsState r\<rparr>,
                      (rest, t), grown r (map snd (pre @ post))))
         \<and> length evs = n
         \<and> (\<forall>k. limR (limitSkip (LimitReader (z @ rest, t) (length z)) k)
                   = (drop (min k (length z)) z @ rest, t)
                 \<and> consumeFinal (limitSkip (LimitReader (z @ rest, t) (length z)) k)
                   = (None, \<lparr>limR = (rest, t), limN = 0\<rparr>))"
proof -
  let ?w = "Packed pre z (Plain post) (surplus, EOF)"
  have len: "length evs = n"
    using assms(7,3) by (metis length_map length_append)
  have "length (concat (map jsonFrame post)) \<in> set [0 ..< Suc (length (concat (map jsonFrame post) @ surplus))]"
    by simp
  then have "CloseReader zl (z, EOF)
               (drop (length (concat (map jsonFrame post))) (concat (map jsonFrame post) @ surplus), EOF)
             = None"
    using assms(1) unfolding inflates_def list_all_iff by blast
  then have cl: "CloseReader zl (z, EOF) (surplus, EOF) = None"
    by simp
  have nr: "NewReader zl (z, EOF) = Inr (concat (map jsonFrame post) @ surplus, EOF)"
    using assms(1) by (simp add: inflates_def)
  have wp: "wellPacked zl ?w"
    using assms(2,5,6) nr cl by simp
  have m: "map (decoder r) (payloads ?w) = map Inr evs"
    using assms(7) by (simp add: comp_def)
  have re: "readEvents fuel zl r (bytesOf ?w @ rest, t) n []
              = Some (Inr ([] @ evs, (rest, t), grown r (payloads ?w)))"
    using wp m assms(3,9) by (intro readEvents_layout) simp_all
  have cnt: "be32 (enc32 n) = n"
    using assms(4) by (rule be32_enc32_only)
  have "0 < n"
    using assms(2,3) by simp
  then have rb: "ReadBatch fuel zl r
            (windowHeader n @ concat (map jsonFrame pre) @ compressedFrame z @ rest, t) =
           Some (Inr (Some \<lparr>Events = evs, RemoteAddr = remoteAddr r, TLS = tlsState r\<rparr>,
                      (rest, t), grown r (map snd (pre @ post))))"
    using assms(8) re
    by (simp add: ReadBatch_def readFull_6 windowHeader_fields cnt
          NewBatchWithSourceMetadata_def)
  have sk: "limR (limitSkip (LimitReader (z @ rest, t) (length z)) k)
              = (drop (min k (length z)) z @ rest, t)" for k
    by (simp add: limitSkip_present)
  show ?thesis
    using rb len sk drain_append by blast
qed

theorem surplus_discarded_witness:
  "ReadBatch (Suc (Suc (Suc (Suc 0)))) storedZlib sampleReader
      (windowHeader 2 @ jsonFrame (1, [0x7B, 0x7D])
         @ compressedFrame (jsonFrame (2, [0x5B, 0x5D]) @ jsonFrame (3, [0x58])) @ [0x32, 0x57], EOF)
     = Some (Inr (Some \<lparr>Events = [[0x7B, 0x7D], [0x5B, 0x5D]],
                      RemoteAddr = ''192.0.2.1:5044'', TLS = None\<rparr>,
                ([0x32, 0x57], EOF), sampleReader\<lparr>buf := 2\<rparr>))
   \<and> decoder sampleReader [0x58] = Inl (Other ''invalid character'')
   \<and> pulled storedZlib (jsonFrame (2, [0x5B, 0x5D]) @ jsonFrame (3, [0x58]), EOF)
        (jsonFrame (3, [0x58]), EOF) = 12
   \<and> limR (limitSkip
        (LimitReader ((jsonFrame (2, [0x5B, 0x5D]) @ jsonFrame (3, [0x58])) @ [0x32, 0x57], EOF)
           (length (jsonFrame (2, [0x5B, 0x5D]) @ jsonFrame (3, [0x58]))))
        12)
       = (jsonFrame (3, [0x58]) @ [0x32, 0x57], EOF)"
proof -
  let ?z = "jsonFrame (2, [0x5B, 0x5D]) @ jsonFrame (3, [0x58])"
  have i: "inflates storedZlib ?z (concat (map jsonFrame [(2, [0x5B, 0x5D])]) @ jsonFrame (3, [0x58]))"
    by (simp add: inflates_def storedZlib_def frame_defs list_all_iff)
  note t = surplus_discarded [OF i, of 2 "[(1, [0x7B, 0x7D])]" sampleReader
        "[[0x7B, 0x7D], [0x5B, 0x5D]]" "Suc (Suc (Suc (Suc 0)))" "[0x32, 0x57]" EOF]
  have pl: "pulled storedZlib (?z, EOF) (jsonFrame (3, [0x58]), EOF) = 12"
    by (simp add: storedZlib_def frame_defs)
  have d12: "drop (min 12 (length ?z)) ?z = jsonFrame (3, [0x58])"
    by (simp add: frame_defs)
  have pre: "[(2 :: nat, [0x5B :: byte, 0x5D])] \<noteq> []"
      "2 = length [(1 :: nat, [0x7B :: byte, 0x7D])] + length [(2 :: nat, [0x5B :: byte, 0x5D])]"
      "(2 :: nat) < 4294967296" "length ?z < 4294967296"
      "list_all (\<lambda>f. length (snd f) < 4294967296)
         ([(1 :: nat, [0x7B :: byte, 0x7D])] @ [(2, [0x5B, 0x5D])])"
      "map (\<lambda>f. decoder sampleReader (snd f)) ([(1 :: nat, [0x7B, 0x7D])] @ [(2, [0x5B, 0x5D])])
         = map Inr [[0x7B, 0x7D], [0x5B, 0x5D]]"
      "deadline sampleReader = None" "2 + 2 \<le> Suc (Suc (Suc (Suc 0)))"
    by (simp_all add: sampleReader_def frame_defs)
  note c = t [OF pre]
  from c [THEN conjunct1]
  have rb': "ReadBatch (Suc (Suc (Suc (Suc 0)))) storedZlib sampleReader
      (windowHeader 2 @ jsonFrame (1, [0x7B, 0x7D]) @ compressedFrame ?z @ [0x32, 0x57], EOF)
     = Some (Inr (Some \<lparr>Events = [[0x7B, 0x7D], [0x5B, 0x5D]],
                      RemoteAddr = ''192.0.2.1:5044'', TLS = None\<rparr>,
                ([0x32, 0x57], EOF), sampleReader\<lparr>buf := 2\<rparr>))"
    by (simp add: sampleReader_def grown_def)
  from c [THEN conjunct2, THEN conjunct2, THEN spec, of 12, THEN conjunct1]
  have sk: "limR (limitSkip (LimitReader (?z @ [0x32, 0x57], EOF) (length ?z)) 12)
                   = (jsonFrame (3, [0x58]) @ [0x32, 0x57], EOF)"
    unfolding d12 .
  have dec: "decoder sampleReader [0x58] = Inl (Other ''invalid character'')"
    by (simp add: sampleReader_def)
  show ?thesis
    using rb' dec pl sk by simp
qed

section \<open>Properties of the connection handler\<close>

subsection \<open>Steps\<close>

lemmas step_defs = step_def handle_def ackLoop_def waitACK_def writerACK_def
  writerKeepalive_def Stop_def

lemma ackedRefs_simps [simp]:
  "ackedRefs (h\<lparr>wire := wire h @ [AckFrame b n]\<rparr>) = ackedRefs h @ [b]"
  "ackedRefs (h\<lparr>wire := wire h @ [KeepaliveFrame b n]\<rparr>) = ackedRefs h"
  by (simp_all add: ackedRefs_def)

lemma step_simps:
  "step h ExternalStop = Some (Stop h)"
  "step h StopCloseClient =
     (if stopping h
      then Some (h\<lparr>stopping := False, clientClosed := True, clientCloses := Suc (clientCloses h)\<rparr>)
      else None)"
  "step h (BatchACK b) =
     (if b < length (batches h) \<and> b \<notin> set (acked h) then Some (h\<lparr>acked := b # acked h\<rparr>)
      else None)"
  "step h (ReadBatchRet res) = handle h (ReadBatchRet res)"
  "step h HandleSelectSignal = handle h HandleSelectSignal"
  "step h Handoff = handle h Handoff"
  "step h (OnEventsRet r) = handle h (OnEventsRet r)"
  "step h HandleStop = handle h HandleStop"
  "step h HandleCloseCh = handle h HandleCloseCh"
  "step h AckSelectSignal = ackLoop h AckSelectSignal"
  "step h AckSelectClosed = ackLoop h AckSelectClosed"
  "step h WaitSignal = ackLoop h WaitSignal"
  "step h (WaitAwait w) = ackLoop h (WaitAwait w)"
  "step h (WaitTick w) = ackLoop h (WaitTick w)"
  "step h DrainClosed = ackLoop h DrainClosed"
  by (simp_all add: step_def)

lemma handle_simps:
  "handle h (ReadBatchRet res) =
     (if readTask h = HRead then
        (case res of
           Inl err \<Rightarrow> Some (h\<lparr>readTask := HStop\<rparr>)
         | Inr None \<Rightarrow> Some h
         | Inr (Some b) \<Rightarrow>
             Some (h\<lparr>batches := batches h @ [b], readTask := HSelect (length (batches h))\<rparr>))
      else None)"
  "handle h HandleSelectSignal =
     (case readTask h of
        HSelect b \<Rightarrow> if signalClosed h then Some (h\<lparr>readTask := HStop\<rparr>) else None
      | _ \<Rightarrow> None)"
  "handle h Handoff =
     (case readTask h of
        HSelect b \<Rightarrow>
          (case ackTask h of
             ASelect \<Rightarrow> Some (h\<lparr>readTask := HOnEvents b, ackTask := AWait b\<rparr>)
           | ADrain \<Rightarrow> Some (h\<lparr>readTask := HOnEvents b\<rparr>)
           | _ \<Rightarrow> None)
      | _ \<Rightarrow> None)"
  "handle h (OnEventsRet r) =
     (case readTask h of
        HOnEvents b \<Rightarrow>
          (case r of None \<Rightarrow> Some (h\<lparr>readTask := HRead\<rparr>) | Some err \<Rightarrow> Some (h\<lparr>readTask := HStop\<rparr>))
      | _ \<Rightarrow> None)"
  "handle h HandleStop =
     (if readTask h = HStop then Some ((Stop h)\<lparr>readTask := HCloseCh\<rparr>) else None)"
  "handle h HandleCloseCh =
     (if readTask h = HCloseCh \<and> \<not> stopping h
      then Some (h\<lparr>chClosed := True, readTask := HDone\<rparr>) else None)"
  by (simp_all add: handle_def split: readPC.splits sum.splits option.splits)

lemma ackLoop_simps:
  "ackLoop h AckSelectSignal =
     (if ackTask h = ASelect \<and> signalClosed h then Some (h\<lparr>ackTask := ADrain\<rparr>) else None)"
  "ackLoop h AckSelectClosed =
     (if ackTask h = ASelect \<and> chClosed h then Some (h\<lparr>ackTask := ADrain\<rparr>) else None)"
  "ackLoop h DrainClosed =
     (if ackTask h = ADrain \<and> chClosed h then Some (h\<lparr>ackTask := AReturned\<rparr>) else None)"
  "ackLoop h WaitSignal =
     (case ackTask h of
        AWait b \<Rightarrow> if signalClosed h then Some (h\<lparr>ackTask := ASelect\<rparr>) else None
      | _ \<Rightarrow> None)"
  "ackLoop h (WaitAwait w) =
     (case ackTask h of
        AWait b \<Rightarrow>
          if b \<in> set (acked h) then
            (case w of
               None \<Rightarrow>
                 if clientClosed h then None
                 else Some (h\<lparr>wire := wire h @ [AckFrame b (length (Events (batches h ! b)))],
                            ackTask := ASelect\<rparr>)
             | Some err \<Rightarrow> Some (h\<lparr>ackTask := ADrain\<rparr>))
          else None
      | _ \<Rightarrow> None)"
  "ackLoop h (WaitTick w) =
     (case ackTask h of
        AWait b \<Rightarrow>
          if 0 < keepalive h then
            (case w of
               None \<Rightarrow>
                 if clientClosed h then None
                 else Some (h\<lparr>wire := wire h @ [KeepaliveFrame b 0]\<rparr>)
             | Some err \<Rightarrow> Some (h\<lparr>ackTask := ADrain\<rparr>))
          else None
      | _ \<Rightarrow> None)"
  by (simp_all add: ackLoop_def waitACK_def writerACK_def writerKeepalive_def
        split: ackPC.splits option.splits)

lemmas step_all = step_simps handle_simps ackLoop_simps

lemma ackedRefs_fields [simp]:
  "ackedRefs (h\<lparr>readTask := x\<rparr>) = ackedRefs h"
  "ackedRefs (h\<lparr>ackTask := y\<rparr>) = ackedRefs h"
  "ackedRefs (h\<lparr>batches := bs\<rparr>) = ackedRefs h"
  "ackedRefs (h\<lparr>acked := a\<rparr>) = ackedRefs h"
  "ackedRefs (h\<lparr>chClosed := c\<rparr>) = ackedRefs h"
  "ackedRefs (h\<lparr>stopping := d\<rparr>) = ackedRefs h"
  "ackedRefs (h\<lparr>clientClosed := e\<rparr>) = ackedRefs h"
  "ackedRefs (h\<lparr>clientCloses := k\<rparr>) = ackedRefs h"
  "ackedRefs (Stop h) = ackedRefs h"
  by (simp_all add: ackedRefs_def Stop_def)

lemma step_moves:
  assumes "step h ev = Some h'"
  shows "moves h ev h'"
  using assms
  apply (cases ev;
      clarsimp simp: step_all split: if_splits readPC.splits ackPC.splits sum.splits option.splits)
  apply (rule moves.intros; assumption)+
  done


subsection \<open>The invariants hold along every run\<close>

lemma Stop_fields [simp]:
  "batches (Stop h) = batches h" "acked (Stop h) = acked h" "wire (Stop h) = wire h"
  "readTask (Stop h) = readTask h" "ackTask (Stop h) = ackTask h"
  "keepalive (Stop h) = keepalive h" "chClosed (Stop h) = chClosed h"
  "clientClosed (Stop h) = clientClosed h"
  by (simp_all add: Stop_def)

lemma rlimOf_le: "readOK p n \<Longrightarrow> rlimOf p n \<le> n"
  by (cases p) simp_all

lemma ackOK_mono: "ackOK p r \<Longrightarrow> r \<le> r' \<Longrightarrow> ackOK p r'"
  by (cases p) simp_all

lemma alimOf_mono: "ackOK p r \<Longrightarrow> r \<le> r' \<Longrightarrow> alimOf p r \<le> alimOf p r'"
  by (cases p) simp_all

lemma alimOf_le: "ackOK p r \<Longrightarrow> alimOf p r \<le> r"
  by (cases p) simp_all

lemma frameOK_mono:
  "frameOK bs acks f \<Longrightarrow> frameOK (bs @ [x]) acks f"
  "frameOK bs acks f \<Longrightarrow> frameOK bs (a # acks) f"
  by (cases f; simp add: nth_append)+

lemma ordered_step:
  assumes "ordered h" "step h ev = Some h'"
  shows "ordered h'"
  using step_moves [OF assms(2)] assms(1)
proof cases
  case (ReadBatch b)
  then show ?thesis using assms(1) by (simp add: ordered_def)
next
  case (HandleSelectSignal i)
  have i: "i < length (batches h)" and a: "ackOK (ackTask h) i"
    using assms(1) HandleSelectSignal by (simp_all add: ordered_def)
  have "ackOK (ackTask h) (length (batches h))"
    using a i by (auto intro: ackOK_mono)
  moreover have "alimOf (ackTask h) i \<le> alimOf (ackTask h) (length (batches h))"
    using a i by (auto intro: alimOf_mono)
  ultimately show ?thesis using assms(1) HandleSelectSignal
    by (auto simp: ordered_def list_all_iff)
next
  case (HandoffWait i)
  then show ?thesis using assms(1) by (simp add: ordered_def)
next
  case (HandoffDrain i)
  then show ?thesis using assms(1) by (auto simp: ordered_def list_all_iff)
next
  case (WaitSignal b)
  then show ?thesis using assms(1) by (auto simp: ordered_def list_all_iff)
next
  case (WaitAwaitOk b)
  then show ?thesis using assms(1)
    by (auto simp: ordered_def list_all_iff sorted_wrt_append)
next
  case (WaitAwaitErr b err)
  then show ?thesis using assms(1) by (auto simp: ordered_def list_all_iff)
next
  case (WaitTickErr b err)
  then show ?thesis using assms(1) by (auto simp: ordered_def list_all_iff)
qed (simp_all add: ordered_def)

lemma wellFramed_step:
  assumes "wellFramed h" "ordered h" "step h ev = Some h'"
  shows "wellFramed h'"
  using step_moves [OF assms(3)] assms(1,2)
proof cases
  case (BatchACK b)
  then show ?thesis using assms(1) by (auto simp: wellFramed_def list_all_iff intro: frameOK_mono)
next
  case (ReadBatch b)
  then show ?thesis using assms(1) by (auto simp: wellFramed_def list_all_iff intro: frameOK_mono)
next
  case (WaitAwaitOk b)
  moreover have "b < length (batches h)"
    using assms(2) WaitAwaitOk rlimOf_le [of "readTask h" "length (batches h)"]
    by (simp add: ordered_def)
  ultimately show ?thesis using assms(1) by (simp add: wellFramed_def)
next
  case (WaitTickOk b)
  then show ?thesis using assms(1) by (simp add: wellFramed_def)
qed (simp_all add: wellFramed_def)


lemma run_invariant:
  assumes "\<And>h ev h'. P h \<Longrightarrow> step h ev = Some h' \<Longrightarrow> P h'"
  shows "P h \<Longrightarrow> run h evs = Some h' \<Longrightarrow> P h'"
proof (induction evs arbitrary: h)
  case Nil
  then show ?case by simp
next
  case (Cons ev evs)
  from Cons.prems(2) obtain h1 where s: "step h ev = Some h1" and r: "run h1 evs = Some h'"
    by (auto split: option.splits)
  from assms [OF Cons.prems(1) s] have "P h1" .
  from Cons.IH [OF this r] show ?case .
qed

lemma DefaultHandler_invariants:
  "ordered (DefaultHandler ka)" "wellFramed (DefaultHandler ka)" "stoppedOnce (DefaultHandler ka)"
  by (simp_all add: DefaultHandler_def ordered_def wellFramed_def stoppedOnce_def ackedRefs_def)

lemma run_ordered: "ordered h \<Longrightarrow> run h evs = Some h' \<Longrightarrow> ordered h'"
  by (rule run_invariant [where P = ordered]) (rule ordered_step)

lemma run_framed:
  assumes "ordered h \<and> wellFramed h" "run h evs = Some h'"
  shows "ordered h' \<and> wellFramed h'"
  using assms
  by (rule run_invariant [where P = "\<lambda>h. ordered h \<and> wellFramed h", rotated])
     (auto intro: ordered_step wellFramed_step)




lemma carries_frameOK: "frameOK bs acks f \<Longrightarrow> carries bs f"
  by (cases f) (simp_all add: CodeVersion_def CodeACK_def enc32_def)

lemma step_WaitAwait:
  assumes "step h (WaitAwait res) = Some h'"
  shows "\<exists>b. ackTask h = AWait b \<and> b \<in> set (acked h) \<and>
             wire h' = wire h @ (if res = None then [AckFrame b (length (Events (batches h ! b)))] else [])"
  using step_moves [OF assms] by cases auto

lemma ordered_distinct: "ordered h \<Longrightarrow> distinct (ackedRefs h)"
  by (simp add: ordered_def strict_sorted_iff)

subsection \<open>The count of an ACK frame (C5)\<close>

text \<open>
  C5. In every state \<open>h\<close> the handler reaches: each ACK frame on the wire is \<open>'2'\<close>,
  \<open>'A'\<close> and the number of events of its Batch as four bytes, big-endian, and each
  keep-alive frame is \<open>'2'\<close>, \<open>'A'\<close> and the count 0; a Batch with an ACK frame was
  acknowledged, and no Batch has two ACK frames. When the select of \<open>waitACK\<close> takes
  the Batch's acknowledgement, the step writes exactly one frame, \<open>ACK\<close> of the number
  of events of the Batch waited for, if the write returns \<open>nil\<close>, and none if it fails.
\<close>

theorem ack_frame_counts:
  assumes "run (DefaultHandler ka) evs = Some h"
  shows "list_all (carries (batches h)) (wire h)
         \<and> list_all (\<lambda>b. b \<in> set (acked h)) (ackedRefs h)
         \<and> distinct (ackedRefs h)
         \<and> (\<forall>res h'. step h (WaitAwait res) = Some h' \<longrightarrow>
               (\<exists>b. ackTask h = AWait b \<and> b \<in> set (acked h) \<and>
                    wire h' = wire h @ (if res = None
                                        then [AckFrame b (length (Events (batches h ! b)))]
                                        else [])))"
proof -
  have inv: "ordered h \<and> wellFramed h"
    using run_framed [OF _ assms] DefaultHandler_invariants by blast
  have a: "list_all (carries (batches h)) (wire h)"
    using inv by (auto simp: wellFramed_def list_all_iff intro: carries_frameOK)
  have b: "list_all (\<lambda>b. b \<in> set (acked h)) (ackedRefs h)"
    using inv by (auto simp: wellFramed_def ackedRefs_def list_all_iff split: wframe.splits)
  have c: "distinct (ackedRefs h)"
    using inv by (simp add: ordered_distinct)
  show ?thesis
    using a b c step_WaitAwait by blast
qed


lemmas trace_defs = crossedTrace_def stopTrace_def batchOne_def batchTwo_def DefaultHandler_def
  Stop_def ackedRefs_def


lemma run_crossedTrace:
  "run (DefaultHandler 3) crossedTrace =
     Some \<lparr>keepalive = 3, batches = [batchOne, batchTwo], acked = [0, 1], signalClosed = False,
           clientClosed = False, chClosed = False, stopGuard = False, stopping = False,
           signalCloses = 0, clientCloses = 0, readTask = HRead, ackTask = ASelect,
           wire = [KeepaliveFrame 0 0, AckFrame 0 1, AckFrame 1 2]\<rparr>"
  by (simp add: step_all trace_defs)

theorem ack_frame_counts_witness:
  "map_option wire (run (DefaultHandler 3) crossedTrace)
     = Some [KeepaliveFrame 0 0, AckFrame 0 1, AckFrame 1 2]
   \<and> list_all (carries [batchOne, batchTwo]) [KeepaliveFrame 0 0, AckFrame 0 1, AckFrame 1 2]
   \<and> map frameBytes [KeepaliveFrame 0 0, AckFrame 0 1, AckFrame 1 2]
       = [[0x32, 0x41, 0, 0, 0, 0], [0x32, 0x41, 0, 0, 0, 1], [0x32, 0x41, 0, 0, 0, 2]]"
proof -
  from ack_frame_counts [OF run_crossedTrace]
  have "list_all (carries [batchOne, batchTwo]) [KeepaliveFrame 0 0, AckFrame 0 1, AckFrame 1 2]"
    by simp
  then show ?thesis
    by (simp add: run_crossedTrace CodeVersion_def CodeACK_def enc32_def)
qed

subsection \<open>The order of the ACK frames (C6)\<close>

text \<open>
  C6. In every state the handler reaches, the Batches of the ACK frames on the wire are
  in the order in which they were read (\<open>batches\<close> lists them in this order, and an
  ACK frame names its Batch by its place in the list): if the Batch of one ACK frame was
  read before the Batch of another, its frame was written before. The order in which the
  consumer acknowledges plays no part: \<open>BatchACK\<close> may come for any Batch at any time.
\<close>

theorem acks_in_read_order:
  assumes "run (DefaultHandler ka) evs = Some h"
  shows "sorted_wrt (<) (ackedRefs h)
         \<and> (\<forall>p q. p < length (ackedRefs h) \<and> q < length (ackedRefs h) \<and>
                  ackedRefs h ! p < ackedRefs h ! q \<longrightarrow> p < q)"
proof -
  have s: "sorted_wrt (<) (ackedRefs h)"
    using run_ordered [OF DefaultHandler_invariants(1) assms] by (simp add: ordered_def)
  have "p < q" if "p < length (ackedRefs h)" "q < length (ackedRefs h)"
    "ackedRefs h ! p < ackedRefs h ! q" for p q
  proof (rule ccontr)
    assume "\<not> p < q"
    then have "q = p \<or> q < p" by auto
    then show False
    proof
      assume "q = p"
      with that(3) show False by simp
    next
      assume "q < p"
      with s that(1) have "ackedRefs h ! q < ackedRefs h ! p"
        by (simp add: sorted_wrt_iff_nth_less)
      with that(3) show False by simp
    qed
  qed
  with s show ?thesis by blast
qed

theorem acks_in_read_order_witness:
  "map_option acked (run (DefaultHandler 3) (take 5 crossedTrace)) = Some [1]
   \<and> map_option acked (run (DefaultHandler 3) crossedTrace) = Some [0, 1]
   \<and> map_option ackedRefs (run (DefaultHandler 3) crossedTrace) = Some [0, 1]
   \<and> sorted_wrt (<) [0 :: nat, 1]"
proof -
  have first: "map_option acked (run (DefaultHandler 3) (take 5 crossedTrace)) = Some [1]"
    by (simp add: step_all trace_defs)
  from acks_in_read_order [OF run_crossedTrace]
  have "sorted_wrt (<)
          (ackedRefs \<lparr>keepalive = 3, batches = [batchOne, batchTwo], acked = [0, 1],
             signalClosed = False, clientClosed = False, chClosed = False, stopGuard = False,
             stopping = False, signalCloses = 0, clientCloses = 0, readTask = HRead,
             ackTask = ASelect, wire = [KeepaliveFrame 0 0, AckFrame 0 1, AckFrame 1 2]\<rparr>)"
    by (rule conjunct1)
  then show ?thesis
    using first by (simp add: run_crossedTrace ackedRefs_def)
qed

subsection \<open>After the stop signal (C7)\<close>








section \<open>Properties of the multiplexing server\<close>

subsection \<open>Routing by the first byte (C8)\<close>

lemma NewServer_default: "NewServer (Inr ''v1'') (Inr ''v2'') [] = Inr (Muxed bothVersions)"
  by (simp add: NewServer_def applyOptions_def bothVersions_def)

lemma NewServer_lst_None:
  assumes "NewServer mk1 mk2 opts = Inr (Muxed s)"
  shows "list_all (\<lambda>m. lst m = None) (muxs s)"
  using assms
  by (auto simp: NewServer_def Let_def split: sum.splits if_splits)

text \<open>
  C8 (the code departs from the claim). The claim: with both versions enabled,
  \<open>Handle\<close> routes a connection whose first byte is \<open>'1'\<close> or \<open>'2'\<close> to the
  sub-server of that version. \<open>NewServer\<close> leaves the listener \<open>l\<close> of every entry
  \<open>nil\<close> (\<open>NewServer_lst_None\<close>), and \<open>Handle\<close> sends the wrapper connection on
  \<open>m.l.ch\<close>: for the server \<open>NewServer\<close> builds by default, a connection that starts
  with either version byte ends in a nil pointer dereference. A first byte of no version
  closes the connection with nothing written, as the claim says
  (\<open>Handle_unknown_byte\<close>), and with the listeners set the connection would be routed
  with the byte put back (\<open>Handle_routes_when_listening\<close>).
\<close>

theorem Handle_version_byte_panics:
  "NewServer (Inr ''v1'') (Inr ''v2'') [] = Inr (Muxed bothVersions)
   \<and> Handle bothVersions (peer (windowHeader 1)) = Inl NilPointerDereference
   \<and> Handle bothVersions (peer [0x31, 0x57, 0, 0, 0, 1]) = Inl NilPointerDereference"
  by (simp add: NewServer_default Handle_def readFull_def peer_def bothVersions_def
        windowHeader_def CodeVersion_def)

lemma Handle_unknown_byte:
  assumes "list_all (\<lambda>m. mux m \<noteq> b) (muxs s)"
  shows "Handle s (peer (b # bs)) = Inr (None, \<lparr>incoming = (bs, EOF), written = [], closed = True\<rparr>)"
proof -
  have r: "route ms b c = Inr (None, c\<lparr>closed := True\<rparr>)"
    if "list_all (\<lambda>m. mux m \<noteq> b) ms" for ms :: "('a, 'b) muxServer list" and c
    using that by (induction ms) simp_all
  show ?thesis
    by (simp add: Handle_def readFull_def peer_def r [OF assms])
qed

lemma Handle_routes_when_listening:
  assumes "muxs s = [\<lparr>mux = 0x31, lst = Some l1, server = s1\<rparr>, \<lparr>mux = 0x32, lst = Some l2, server = s2\<rparr>]"
  shows "Handle s (peer (0x32 # bs)) = Inr (Some (l2, newMuxConn 0x32 (peer bs)), peer bs)"
    and "Handle s (peer (0x31 # bs)) = Inr (Some (l1, newMuxConn 0x31 (peer bs)), peer bs)"
    and "muxConnStream (newMuxConn 0x32 (peer bs)) = (0x32 # bs, EOF)"
  using assms by (simp_all add: Handle_def readFull_def peer_def newMuxConn_def muxConnStream_def)

subsection \<open>Closing the server (C9)\<close>

text \<open>
  C9 as it is written fails: \<open>Close\<close> is not idempotent. On the server
  \<open>NewServer\<close> builds by default, with sub-servers that close without a panic, the
  first \<open>Close\<close> returns and the second panics at \<open>close(s.done)\<close>.
\<close>

theorem Close_twice_counterexample:
  "Close Inr bothVersions = Inr (bothVersions\<lparr>doneClosed := True, sinkClosed := True\<rparr>)
   \<and> Close Inr (bothVersions\<lparr>doneClosed := True, sinkClosed := True\<rparr>) = Inl CloseOfClosedChannel"
  by (simp add: Close_def bothVersions_def)

text \<open>
  C9, amended. \<open>Close\<close> is for one call. On a server whose done signal and sink are
  open and whose sub-servers close without a panic, it closes the done signal and every
  sub-server, closes the sink if the server owns it, and returns. On a server whose
  done signal is closed, as after any \<open>Close\<close>, it panics.
\<close>

theorem Close_once:
  assumes "closeAll subClose (muxs s) = Inr ms" and "\<not> sinkClosed s"
  shows "(\<not> doneClosed s \<longrightarrow>
            Close subClose s = Inr (s\<lparr>doneClosed := True, muxs := ms, sinkClosed := ownCH s\<rparr>))
         \<and> (doneClosed s \<longrightarrow> Close subClose s = Inl CloseOfClosedChannel)"
  using assms by (simp add: Close_def)

theorem Close_once_witness:
  "closeAll Inr (muxs bothVersions) = Inr (muxs bothVersions)
   \<and> Close Inr bothVersions = Inr (bothVersions\<lparr>doneClosed := True, sinkClosed := True\<rparr>)
   \<and> Close Inr (bothVersions\<lparr>doneClosed := True, sinkClosed := True\<rparr>) = Inl CloseOfClosedChannel"
proof -
  have c: "closeAll Inr (muxs bothVersions) = Inr (muxs bothVersions)"
    by (simp add: bothVersions_def)
  have o: "\<not> sinkClosed bothVersions" "\<not> doneClosed bothVersions" "ownCH bothVersions"
    by (simp_all add: bothVersions_def)
  have "Close Inr bothVersions = Inr (bothVersions\<lparr>doneClosed := True, sinkClosed := True\<rparr>)"
    using Close_once [OF c o(1)] o by (simp add: bothVersions_def)
  moreover have "Close Inr (bothVersions\<lparr>doneClosed := True, sinkClosed := True\<rparr>) = Inl CloseOfClosedChannel"
    by (simp add: Close_def)
  ultimately show ?thesis
    using c by simp
qed

end
